theory Spec2Isabelle
  imports Main
begin

section \<open>Scores\<close>

text \<open>
  The search of \<^verbatim>\<open>main.py\<close> compares Python integers (the static evaluation) with
  the two floats \<^verbatim>\<open>float('-inf')\<close> and \<^verbatim>\<open>float('inf')\<close>. A score is therefore an
  integer or one of the two infinities, ordered as Python orders them.
\<close>

datatype score = NegInf | Fin int | PosInf

instantiation score :: linorder
begin

fun less_eq_score :: "score \<Rightarrow> score \<Rightarrow> bool" where
  "less_eq_score NegInf _ = True"
| "less_eq_score _ PosInf = True"
| "less_eq_score (Fin a) (Fin b) = (a \<le> b)"
| "less_eq_score _ _ = False"

definition less_score :: "score \<Rightarrow> score \<Rightarrow> bool" where
  "less_score a b \<longleftrightarrow> a \<le> b \<and> \<not> b \<le> a"

instance
proof
  fix x y z :: score
  show "(x < y) = (x \<le> y \<and> \<not> y \<le> x)"
    by (simp add: less_score_def)
  show "x \<le> x"
    by (cases x) simp_all
  show "x \<le> y \<Longrightarrow> y \<le> z \<Longrightarrow> x \<le> z"
    by (cases x; cases y; cases z) simp_all
  show "x \<le> y \<Longrightarrow> y \<le> x \<Longrightarrow> x = y"
    by (cases x; cases y) simp_all
  show "x \<le> y \<or> y \<le> x"
    by (cases x; cases y) auto
qed

end

section \<open>Board, squares and characters\<close>

text \<open>
  A board is a list of eight rows of eight one-character strings; a row is modelled as a
  list of characters, so a row literal reads like the printed board. Coordinates are Python
  integers: \<^verbatim>\<open>nx\<close> and \<^verbatim>\<open>ny\<close> leave the range 0..7 before \<^verbatim>\<open>is_in_bounds\<close>
  rejects them. The characters on a board are ASCII (the twelve piece letters and the dot).
\<close>

type_synonym board = "char list list"
type_synonym square = "int \<times> int"
type_synonym move = "square \<times> square"

definition wf_board :: "board \<Rightarrow> bool" where
  "wf_board b \<longleftrightarrow> length b = 8 \<and> list_all (\<lambda>row. length row = 8) b"

definition initialize_board :: board where
  "initialize_board =
     [''rnbqkbnr'',
      ''pppppppp'',
      ''........'',
      ''........'',
      ''........'',
      ''........'',
      ''PPPPPPPP'',
      ''RNBQKBNR'']"

text \<open>\<^verbatim>\<open>board[x][y]\<close>, read only at coordinates that \<^verbatim>\<open>range(8)\<close> or
  \<^verbatim>\<open>is_in_bounds\<close> has put in 0..7.\<close>

definition at :: "board \<Rightarrow> int \<Rightarrow> int \<Rightarrow> char" where
  "at b x y = b ! nat x ! nat y"

definition is_in_bounds :: "int \<Rightarrow> int \<Rightarrow> bool" where
  "is_in_bounds x y \<longleftrightarrow> 0 \<le> x \<and> x < 8 \<and> 0 \<le> y \<and> y < 8"

text \<open>
  Python's \<^verbatim>\<open>isupper\<close>, \<^verbatim>\<open>islower\<close> and \<^verbatim>\<open>upper\<close> on a one-character ASCII
  string: a character is cased exactly when it is a letter, and \<^verbatim>\<open>upper\<close> changes only
  the lower-case letters.
\<close>

definition isupper :: "char \<Rightarrow> bool" where
  "isupper c \<longleftrightarrow> c \<in> set ''ABCDEFGHIJKLMNOPQRSTUVWXYZ''"

definition islower :: "char \<Rightarrow> bool" where
  "islower c \<longleftrightarrow> c \<in> set ''abcdefghijklmnopqrstuvwxyz''"

definition upper :: "char \<Rightarrow> char" where
  "upper c =
     (case map_of (zip ''abcdefghijklmnopqrstuvwxyz'' ''ABCDEFGHIJKLMNOPQRSTUVWXYZ'') c of
        Some u \<Rightarrow> u
      | None \<Rightarrow> c)"

section \<open>Move generation\<close>

definition directions :: "char \<rightharpoonup> (int \<times> int) list" where
  "directions = map_of
     [(CHR ''P'', [(-1, 0), (-1, -1), (-1, 1)]),
      (CHR ''p'', [(1, 0), (1, -1), (1, 1)]),
      (CHR ''R'', [(-1, 0), (1, 0), (0, -1), (0, 1)]),
      (CHR ''r'', [(-1, 0), (1, 0), (0, -1), (0, 1)]),
      (CHR ''N'', [(-2, -1), (-2, 1), (-1, -2), (-1, 2), (2, -1), (2, 1), (1, -2), (1, 2)]),
      (CHR ''n'', [(-2, -1), (-2, 1), (-1, -2), (-1, 2), (2, -1), (2, 1), (1, -2), (1, 2)]),
      (CHR ''B'', [(-1, -1), (-1, 1), (1, -1), (1, 1)]),
      (CHR ''b'', [(-1, -1), (-1, 1), (1, -1), (1, 1)]),
      (CHR ''Q'', [(-1, 0), (1, 0), (0, -1), (0, 1), (-1, -1), (-1, 1), (1, -1), (1, 1)]),
      (CHR ''q'', [(-1, 0), (1, 0), (0, -1), (0, 1), (-1, -1), (-1, 1), (1, -1), (1, 1)]),
      (CHR ''K'', [(-1, 0), (1, 0), (0, -1), (0, 1), (-1, -1), (-1, 1), (1, -1), (1, 1)]),
      (CHR ''k'', [(-1, 0), (1, 0), (0, -1), (0, 1), (-1, -1), (-1, 1), (1, -1), (1, 1)])]"

text \<open>
  The \<^verbatim>\<open>while is_in_bounds(nx, ny)\<close> loop of \<^verbatim>\<open>get_piece_moves\<close> for one direction,
  returning the moves it appends. The loop leaves the board after at most eight steps
  because no direction of the table is \<open>(0, 0)\<close> (lemma \<open>directions_nonzero\<close> below); the
  conjunct \<open>(dx, dy) \<noteq> (0, 0)\<close> records that fact and is what the termination proof uses.
\<close>

function walk :: "board \<Rightarrow> char \<Rightarrow> square \<Rightarrow> int \<times> int \<Rightarrow> int \<Rightarrow> int \<Rightarrow> move list" where
  "walk b piece (x, y) (dx, dy) nx ny =
     (if is_in_bounds nx ny \<and> (dx, dy) \<noteq> (0, 0) then
        (let appended =
               (if at b nx ny = CHR ''.'' \<or> islower (at b nx ny) \<noteq> islower piece
                then [((x, y), (nx, ny))] else [])
         in if at b nx ny \<noteq> CHR ''.'' then appended
            else if upper piece \<in> set [CHR ''N'', CHR ''K'', CHR ''P''] then appended
            else appended @ walk b piece (x, y) (dx, dy) (nx + dx) (ny + dy))
      else [])"
  by pat_completeness auto
termination
  by (relation "measure (\<lambda>(b, piece, xy, (dx, dy), nx, ny).
        if 0 < dx then nat (8 - nx) else if dx < 0 then nat (nx + 1)
        else if 0 < dy then nat (8 - ny) else nat (ny + 1))")
     (auto simp: is_in_bounds_def)

text \<open>
  \<^verbatim>\<open>directions[piece]\<close> cannot raise KeyError after the test
  \<^verbatim>\<open>piece.upper() in directions\<close> (lemma \<open>directions_upper\<close> below), so the \<open>None\<close> case
  is never taken.
\<close>

definition get_piece_moves :: "board \<Rightarrow> int \<Rightarrow> int \<Rightarrow> char \<Rightarrow> move list" where
  "get_piece_moves b x y piece =
     (if directions (upper piece) \<noteq> None then
        (case directions piece of
           Some ds \<Rightarrow> concat (map (\<lambda>(dx, dy). walk b piece (x, y) (dx, dy) (x + dx) (y + dy)) ds)
         | None \<Rightarrow> [])
      else [])"

definition generate_moves :: "board \<Rightarrow> bool \<Rightarrow> move list" where
  "generate_moves b is_white =
     concat (map (\<lambda>x. concat (map (\<lambda>y.
        (let piece = at b x y
         in if (is_white \<and> isupper piece) \<or> (\<not> is_white \<and> islower piece)
            then get_piece_moves b x y piece else []))
        [0..7])) [0..7])"

section \<open>Static evaluation\<close>

definition piece_values :: "char \<rightharpoonup> int" where
  "piece_values = map_of
     [(CHR ''p'', 1), (CHR ''n'', 3), (CHR ''b'', 3), (CHR ''r'', 5), (CHR ''q'', 9), (CHR ''k'', 0),
      (CHR ''P'', -1), (CHR ''N'', -3), (CHR ''B'', -3), (CHR ''R'', -5), (CHR ''Q'', -9),
      (CHR ''K'', 0)]"

definition piece_value_get :: "char \<Rightarrow> int" where
  "piece_value_get piece = (case piece_values piece of Some v \<Rightarrow> v | None \<Rightarrow> 0)"

definition evaluate_board :: "board \<Rightarrow> int" where
  "evaluate_board b =
     fold (\<lambda>row score. fold (\<lambda>piece score. score + piece_value_get piece) row score) b 0"

section \<open>Applying a move\<close>

text \<open>
  \<^verbatim>\<open>make_move\<close> first writes the content of the from-square to the to-square, then the
  dot to the from-square. This is the function on the coordinates the search passes to it,
  which are list indices in 0..7.
\<close>

definition set_square :: "board \<Rightarrow> int \<Rightarrow> int \<Rightarrow> char \<Rightarrow> board" where
  "set_square b x y c = b[nat x := (b ! nat x)[nat y := c]]"

fun make_move :: "board \<Rightarrow> move \<Rightarrow> board" where
  "make_move b ((x1, y1), (x2, y2)) =
     (let b1 = set_square b x2 y2 (at b x1 y1)
      in set_square b1 x1 y1 (CHR ''.''))"

section \<open>Search\<close>

text \<open>
  The two \<^verbatim>\<open>for move in generate_moves(board, is_white)\<close> loops of \<^verbatim>\<open>minimax\<close>.
  The parameter \<open>child\<close> is the recursive call on the copied and updated board, giving the
  first component of its result; \<open>max_eval\<close>, \<open>best_move\<close> and \<open>alpha\<close> (resp.
  \<open>beta\<close>) are the loop's variables; \<^verbatim>\<open>break\<close> returns at once.
\<close>

fun max_loop :: "(board \<Rightarrow> score \<Rightarrow> score \<Rightarrow> score) \<Rightarrow> board \<Rightarrow> score \<Rightarrow> score \<Rightarrow>
    score \<Rightarrow> move option \<Rightarrow> move list \<Rightarrow> score \<times> move option" where
  "max_loop child b alpha beta max_eval best_move [] = (max_eval, best_move)"
| "max_loop child b alpha beta max_eval best_move (m # ms) =
     (let new_board = make_move b m;
          evaluation = child new_board alpha beta;
          max_eval' = (if evaluation > max_eval then evaluation else max_eval);
          best_move' = (if evaluation > max_eval then Some m else best_move);
          alpha' = max alpha evaluation
      in if beta \<le> alpha' then (max_eval', best_move')
         else max_loop child b alpha' beta max_eval' best_move' ms)"

fun min_loop :: "(board \<Rightarrow> score \<Rightarrow> score \<Rightarrow> score) \<Rightarrow> board \<Rightarrow> score \<Rightarrow> score \<Rightarrow>
    score \<Rightarrow> move option \<Rightarrow> move list \<Rightarrow> score \<times> move option" where
  "min_loop child b alpha beta min_eval best_move [] = (min_eval, best_move)"
| "min_loop child b alpha beta min_eval best_move (m # ms) =
     (let new_board = make_move b m;
          evaluation = child new_board alpha beta;
          min_eval' = (if evaluation < min_eval then evaluation else min_eval);
          best_move' = (if evaluation < min_eval then Some m else best_move);
          beta' = min beta evaluation
      in if beta' \<le> alpha then (min_eval', best_move')
         else min_loop child b alpha beta' min_eval' best_move' ms)"

text \<open>
  \<^verbatim>\<open>minimax\<close> and \<^verbatim>\<open>minimax_gpu\<close> are the same text up to the evaluation called at
  depth 0, which is the parameter \<open>ev\<close> here. The depth is a natural number: the callers
  pass 3.
\<close>

fun search :: "(board \<Rightarrow> int) \<Rightarrow> board \<Rightarrow> nat \<Rightarrow> bool \<Rightarrow> score \<Rightarrow> score \<Rightarrow> score \<times> move option" where
  "search ev b depth is_white alpha beta =
     (if depth = 0 then (Fin (ev b), None)
      else if is_white then
        max_loop (\<lambda>new_board a c. fst (search ev new_board (depth - 1) (\<not> is_white) a c))
          b alpha beta NegInf None (generate_moves b is_white)
      else
        min_loop (\<lambda>new_board a c. fst (search ev new_board (depth - 1) (\<not> is_white) a c))
          b alpha beta PosInf None (generate_moves b is_white))"

definition minimax :: "board \<Rightarrow> nat \<Rightarrow> bool \<Rightarrow> score \<Rightarrow> score \<Rightarrow> score \<times> move option" where
  "minimax = search evaluate_board"

declare walk.simps [simp del]
declare search.simps [simp del]

subsection \<open>The evaluation of \<^verbatim>\<open>main_gpu.py\<close>\<close>

text \<open>
  \<^verbatim>\<open>board_to_tensor\<close> stores a small whole number for each square and
  \<^verbatim>\<open>evaluate_board_gpu\<close> sums \<^verbatim>\<open>t * piece_values[t + 6]\<close> over the 64 entries. All
  numbers involved are whole and below 3000 in absolute value, which 32-bit floats
  represent exactly, so the tensor is a list of integer rows here.
\<close>

definition piece_map :: "char \<rightharpoonup> int" where
  "piece_map = map_of
     [(CHR ''.'', 0), (CHR ''p'', 1), (CHR ''n'', 2), (CHR ''b'', 3), (CHR ''r'', 4),
      (CHR ''q'', 5), (CHR ''k'', 6),
      (CHR ''P'', -1), (CHR ''N'', -2), (CHR ''B'', -3), (CHR ''R'', -4), (CHR ''Q'', -5),
      (CHR ''K'', -6)]"

definition board_to_tensor :: "board \<Rightarrow> int list list" where
  "board_to_tensor b =
     map (\<lambda>x. map (\<lambda>y. (case piece_map (at b x y) of Some v \<Rightarrow> v | None \<Rightarrow> 0)) [0..7]) [0..7]"

definition piece_values_gpu :: "int list" where
  "piece_values_gpu = [0, 1, 3, 3, 5, 9, 0, -1, -3, -3, -5, -9, 0]"

definition evaluate_board_gpu :: "int list list \<Rightarrow> int" where
  "evaluate_board_gpu tensor =
     sum_list (map (\<lambda>t. t * piece_values_gpu ! nat (t + 6)) (concat tensor))"

definition minimax_gpu :: "board \<Rightarrow> nat \<Rightarrow> bool \<Rightarrow> score \<Rightarrow> score \<Rightarrow> score \<times> move option" where
  "minimax_gpu = search (\<lambda>b. evaluate_board_gpu (board_to_tensor b))"

subsection \<open>The explored children of a node\<close>

text \<open>
  The moves a loop of \<^verbatim>\<open>minimax\<close> tries before it ends or breaks, each with the
  evaluation its recursive call returned, in the order of the loop. The functions repeat
  the loops and keep the pair \<open>(move, evaluation)\<close> instead of the running best.
\<close>

fun max_trace :: "(board \<Rightarrow> score \<Rightarrow> score \<Rightarrow> score) \<Rightarrow> board \<Rightarrow> score \<Rightarrow> score \<Rightarrow>
    move list \<Rightarrow> (move \<times> score) list" where
  "max_trace child b alpha beta [] = []"
| "max_trace child b alpha beta (m # ms) =
     (let evaluation = child (make_move b m) alpha beta;
          alpha' = max alpha evaluation
      in (m, evaluation) # (if beta \<le> alpha' then [] else max_trace child b alpha' beta ms))"

fun min_trace :: "(board \<Rightarrow> score \<Rightarrow> score \<Rightarrow> score) \<Rightarrow> board \<Rightarrow> score \<Rightarrow> score \<Rightarrow>
    move list \<Rightarrow> (move \<times> score) list" where
  "min_trace child b alpha beta [] = []"
| "min_trace child b alpha beta (m # ms) =
     (let evaluation = child (make_move b m) alpha beta;
          beta' = min beta evaluation
      in (m, evaluation) # (if beta' \<le> alpha then [] else min_trace child b alpha beta' ms))"

definition explored :: "(board \<Rightarrow> int) \<Rightarrow> board \<Rightarrow> nat \<Rightarrow> bool \<Rightarrow> score \<Rightarrow> score \<Rightarrow>
    (move \<times> score) list" where
  "explored ev b depth is_white alpha beta =
     (if depth = 0 then []
      else if is_white then
        max_trace (\<lambda>new_board a c. fst (search ev new_board (depth - 1) (\<not> is_white) a c))
          b alpha beta (generate_moves b is_white)
      else
        min_trace (\<lambda>new_board a c. fst (search ev new_board (depth - 1) (\<not> is_white) a c))
          b alpha beta (generate_moves b is_white))"

subsection \<open>Minimax without pruning\<close>

text \<open>
  The reference of the equivalence property: the same tree (same move generator, same
  \<^verbatim>\<open>make_move\<close>, same evaluation at depth 0), every child visited, no window. A node
  takes the greatest (White) or least (Black) value of its children, starting from the
  same initial values as the loops of \<^verbatim>\<open>minimax\<close>.
\<close>

fun minimax_full :: "(board \<Rightarrow> int) \<Rightarrow> board \<Rightarrow> nat \<Rightarrow> bool \<Rightarrow> score" where
  "minimax_full ev b depth is_white =
     (if depth = 0 then Fin (ev b)
      else if is_white then
        fold max (map (\<lambda>m. minimax_full ev (make_move b m) (depth - 1) (\<not> is_white))
                      (generate_moves b is_white)) NegInf
      else
        fold min (map (\<lambda>m. minimax_full ev (make_move b m) (depth - 1) (\<not> is_white))
                      (generate_moves b is_white)) PosInf)"

declare minimax_full.simps [simp del]

subsection \<open>The material sum of the specification\<close>

text \<open>
  The evaluator as the specification words it: the sum over the occupied squares of
  \<open>sign(color) * material_value(kind)\<close>, with Pawn 1, Knight 3, Bishop 3, Rook 5, Queen 9,
  King 0, the sign being +1 for White (upper case) and -1 for Black (lower case).
\<close>

definition material_value :: "char \<Rightarrow> int" where
  "material_value piece =
     (case map_of [(CHR ''P'', 1), (CHR ''N'', 3), (CHR ''B'', 3), (CHR ''R'', 5), (CHR ''Q'', 9),
                   (CHR ''K'', 0::int)] (upper piece) of
        Some v \<Rightarrow> v
      | None \<Rightarrow> 0)"

definition colour_sign :: "char \<Rightarrow> int" where
  "colour_sign piece = (if isupper piece then 1 else if islower piece then - 1 else 0)"

definition material_score :: "board \<Rightarrow> int" where
  "material_score b =
     sum_list (map (\<lambda>row. sum_list (map (\<lambda>piece. colour_sign piece * material_value piece) row)) b)"

subsection \<open>\<^verbatim>\<open>make_move\<close> with the index checks of Python lists\<close>

text \<open>
  A Python list accepts an index \<open>i\<close> with \<open>-n \<le> i < n\<close>, a negative one counting from
  the end, and raises IndexError otherwise. \<^verbatim>\<open>make_move\<close> has no other way to fail: it
  contains no test and no \<^verbatim>\<open>raise\<close>. The right-hand side \<^verbatim>\<open>board[x1][y1]\<close> is read
  first, then the target \<^verbatim>\<open>board[x2][y2]\<close> is written; the second assignment uses
  indices that the first has already accepted.
\<close>

datatype py_error = IndexError

definition py_index :: "nat \<Rightarrow> int \<Rightarrow> nat option" where
  "py_index n i =
     (if 0 \<le> i \<and> i < int n then Some (nat i)
      else if - int n \<le> i \<and> i < 0 then Some (nat (int n + i))
      else None)"

fun make_move_py :: "board \<Rightarrow> move \<Rightarrow> py_error + board" where
  "make_move_py b ((x1, y1), (x2, y2)) =
     (case py_index (length b) x1 of
        None \<Rightarrow> Inl IndexError
      | Some i1 \<Rightarrow>
         (case py_index (length (b ! i1)) y1 of
            None \<Rightarrow> Inl IndexError
          | Some j1 \<Rightarrow>
             (case py_index (length b) x2 of
                None \<Rightarrow> Inl IndexError
              | Some i2 \<Rightarrow>
                 (case py_index (length (b ! i2)) y2 of
                    None \<Rightarrow> Inl IndexError
                  | Some j2 \<Rightarrow>
                     (let b1 = b[i2 := (b ! i2)[j2 := b ! i1 ! j1]]
                      in Inr (b1[i1 := (b1 ! i1)[j1 := CHR ''.'']]))))))"


subsection \<open>Diagonal pawn steps\<close>

text \<open>A move of a pawn (of either colour) that changes the file.\<close>

fun pawn_diagonal :: "board \<Rightarrow> move \<Rightarrow> bool" where
  "pawn_diagonal b ((x1, y1), (x2, y2)) \<longleftrightarrow> upper (at b x1 y1) = CHR ''P'' \<and> y1 \<noteq> y2"

subsection \<open>Boards used as concrete inputs\<close>

definition black_king_only :: board where
  "black_king_only =
     [''....k...'',
      ''........'',
      ''........'',
      ''........'',
      ''........'',
      ''........'',
      ''........'',
      ''........'']"

definition white_pawn_only :: board where
  "white_pawn_only =
     [''........'',
      ''........'',
      ''........'',
      ''........'',
      ''........'',
      ''........'',
      ''P.......'',
      ''........'']"

subsection \<open>What a call with a window returns\<close>

text \<open>
  The relation between the value \<open>v\<close> that a call with the window \<open>(alpha, beta)\<close>
  returns and the value \<open>t\<close> of the same node without pruning: a value inside the window
  is exact, a value at or below \<open>alpha\<close> is an upper bound, a value at or above \<open>beta\<close> is
  a lower bound.
\<close>

definition ab_ok :: "score \<Rightarrow> score \<Rightarrow> score \<Rightarrow> score \<Rightarrow> bool" where
  "ab_ok alpha beta v t \<longleftrightarrow>
     (v \<le> alpha \<longrightarrow> t \<le> v) \<and> (alpha < v \<and> v < beta \<longrightarrow> v = t) \<and> (beta \<le> v \<longrightarrow> v \<le> t)"

definition pawn_vs_king :: board where
  "pawn_vs_king =
     [''.......k'',
      ''P.......'',
      ''........'',
      ''........'',
      ''........'',
      ''........'',
      ''........'',
      ''........'']"

subsection \<open>The recursion with a bound on its depth\<close>

text \<open>
  \<^verbatim>\<open>minimax\<close> with the depth as the Python integer it is: the test is
  \<^verbatim>\<open>depth == 0\<close> and the recursive call passes \<^verbatim>\<open>depth - 1\<close>, so a negative depth
  never reaches 0. The first argument bounds the number of nested calls; the result
  \<open>None\<close> says that the call did not return within that bound. The loops are those of
  \<open>max_loop\<close> and \<open>min_loop\<close>, passing \<open>None\<close> on.
\<close>

fun max_loop_fuel :: "(board \<Rightarrow> score \<Rightarrow> score \<Rightarrow> score option) \<Rightarrow> board \<Rightarrow> score \<Rightarrow> score \<Rightarrow>
    score \<Rightarrow> move option \<Rightarrow> move list \<Rightarrow> (score \<times> move option) option" where
  "max_loop_fuel child b alpha beta max_eval best_move [] = Some (max_eval, best_move)"
| "max_loop_fuel child b alpha beta max_eval best_move (m # ms) =
     (case child (make_move b m) alpha beta of
        None \<Rightarrow> None
      | Some evaluation \<Rightarrow>
         (let max_eval' = (if evaluation > max_eval then evaluation else max_eval);
              best_move' = (if evaluation > max_eval then Some m else best_move);
              alpha' = max alpha evaluation
          in if beta \<le> alpha' then Some (max_eval', best_move')
             else max_loop_fuel child b alpha' beta max_eval' best_move' ms))"

fun min_loop_fuel :: "(board \<Rightarrow> score \<Rightarrow> score \<Rightarrow> score option) \<Rightarrow> board \<Rightarrow> score \<Rightarrow> score \<Rightarrow>
    score \<Rightarrow> move option \<Rightarrow> move list \<Rightarrow> (score \<times> move option) option" where
  "min_loop_fuel child b alpha beta min_eval best_move [] = Some (min_eval, best_move)"
| "min_loop_fuel child b alpha beta min_eval best_move (m # ms) =
     (case child (make_move b m) alpha beta of
        None \<Rightarrow> None
      | Some evaluation \<Rightarrow>
         (let min_eval' = (if evaluation < min_eval then evaluation else min_eval);
              best_move' = (if evaluation < min_eval then Some m else best_move);
              beta' = min beta evaluation
          in if beta' \<le> alpha then Some (min_eval', best_move')
             else min_loop_fuel child b alpha beta' min_eval' best_move' ms))"

fun minimax_fuel :: "nat \<Rightarrow> board \<Rightarrow> int \<Rightarrow> bool \<Rightarrow> score \<Rightarrow> score \<Rightarrow> (score \<times> move option) option" where
  "minimax_fuel 0 b depth is_white alpha beta =
     (if depth = 0 then Some (Fin (evaluate_board b), None) else None)"
| "minimax_fuel (Suc fuel) b depth is_white alpha beta =
     (if depth = 0 then Some (Fin (evaluate_board b), None)
      else if is_white then
        max_loop_fuel
          (\<lambda>new_board a c. map_option fst (minimax_fuel fuel new_board (depth - 1) (\<not> is_white) a c))
          b alpha beta NegInf None (generate_moves b is_white)
      else
        min_loop_fuel
          (\<lambda>new_board a c. map_option fst (minimax_fuel fuel new_board (depth - 1) (\<not> is_white) a c))
          b alpha beta PosInf None (generate_moves b is_white))"

subsection \<open>Boards as objects: rows in a store\<close>

text \<open>
  In Python a board is a list of eight row lists, and \<^verbatim>\<open>board[x][y] = c\<close> updates a row
  object in place: whoever holds a reference to that row sees the update. To speak about
  what a call does to the board of its caller, the rows are objects in a store: the store
  is the list of all rows allocated so far, the address of a row is its index, and no row
  is ever freed. A board is the list of the addresses of its rows; the program never
  assigns to the outer list itself, so that list is a value here. The characters are
  immutable strings.
\<close>

type_synonym store = "char list list"
type_synonym board_ref = "nat list"

text \<open>The board that a reference denotes in a store.\<close>

definition load :: "store \<Rightarrow> board_ref \<Rightarrow> board" where
  "load s r = map (\<lambda>a. s ! a) r"

text \<open>A reference to a board of eight rows of eight squares, all allocated.\<close>

definition valid_board :: "store \<Rightarrow> board_ref \<Rightarrow> bool" where
  "valid_board s r \<longleftrightarrow>
     length r = 8 \<and> list_all (\<lambda>a. a < length s \<and> length (s ! a) = 8) r"

text \<open>
  \<^verbatim>\<open>copy.deepcopy(board)\<close> builds a new outer list and copies each row into a newly
  allocated row. Its memo maps the address of a row that has been copied to the address
  of the copy, so a row that occurs twice in the board is copied once. The one-character
  strings are shared with the original. The result is the new board and the new store.
\<close>

fun deepcopy_rows :: "store \<Rightarrow> (nat \<times> nat) list \<Rightarrow> nat list \<Rightarrow> nat list \<times> store" where
  "deepcopy_rows s memo [] = ([], s)"
| "deepcopy_rows s memo (a # as) =
     (case map_of memo a of
        Some a' \<Rightarrow>
          (case deepcopy_rows s memo as of (r, s') \<Rightarrow> (a' # r, s'))
      | None \<Rightarrow>
          (case deepcopy_rows (s @ [s ! a]) ((a, length s) # memo) as of
             (r, s') \<Rightarrow> (length s # r, s')))"

definition deepcopy :: "store \<Rightarrow> board_ref \<Rightarrow> board_ref \<times> store" where
  "deepcopy s r = deepcopy_rows s [] r"

text \<open>
  \<^verbatim>\<open>make_move\<close> on a board in the store: the two assignments update the rows that the
  board refers to, the second one in the store that the first has left. The coordinates
  are those of a generated move, which are list indices in 0..7.
\<close>

fun make_move_store :: "store \<Rightarrow> board_ref \<Rightarrow> move \<Rightarrow> store" where
  "make_move_store s r ((x1, y1), (x2, y2)) =
     (let s1 = s[r ! nat x2 := (s ! (r ! nat x2))[nat y2 := s ! (r ! nat x1) ! nat y1]]
      in s1[r ! nat x1 := (s1 ! (r ! nat x1))[nat y1 := CHR ''.'']])"

text \<open>
  The loops of \<^verbatim>\<open>minimax\<close> with the store passed along: each iteration copies the
  board \<open>r\<close> of the node, applies the move to the copy and calls \<open>child\<close> on the copy, in
  the store that the copy and the move have left; the next iteration starts from the
  store that the recursive call returns.
\<close>

fun max_loop_store :: "(store \<Rightarrow> board_ref \<Rightarrow> score \<Rightarrow> score \<Rightarrow> score \<times> store) \<Rightarrow>
    store \<Rightarrow> board_ref \<Rightarrow> score \<Rightarrow> score \<Rightarrow> score \<Rightarrow> move option \<Rightarrow> move list \<Rightarrow>
    (score \<times> move option) \<times> store" where
  "max_loop_store child s r alpha beta max_eval best_move [] = ((max_eval, best_move), s)"
| "max_loop_store child s r alpha beta max_eval best_move (m # ms) =
     (case deepcopy s r of (new_board, s1) \<Rightarrow>
      (case child (make_move_store s1 new_board m) new_board alpha beta of (evaluation, s3) \<Rightarrow>
        (let max_eval' = (if evaluation > max_eval then evaluation else max_eval);
             best_move' = (if evaluation > max_eval then Some m else best_move);
             alpha' = max alpha evaluation
         in if beta \<le> alpha' then ((max_eval', best_move'), s3)
            else max_loop_store child s3 r alpha' beta max_eval' best_move' ms)))"

fun min_loop_store :: "(store \<Rightarrow> board_ref \<Rightarrow> score \<Rightarrow> score \<Rightarrow> score \<times> store) \<Rightarrow>
    store \<Rightarrow> board_ref \<Rightarrow> score \<Rightarrow> score \<Rightarrow> score \<Rightarrow> move option \<Rightarrow> move list \<Rightarrow>
    (score \<times> move option) \<times> store" where
  "min_loop_store child s r alpha beta min_eval best_move [] = ((min_eval, best_move), s)"
| "min_loop_store child s r alpha beta min_eval best_move (m # ms) =
     (case deepcopy s r of (new_board, s1) \<Rightarrow>
      (case child (make_move_store s1 new_board m) new_board alpha beta of (evaluation, s3) \<Rightarrow>
        (let min_eval' = (if evaluation < min_eval then evaluation else min_eval);
             best_move' = (if evaluation < min_eval then Some m else best_move);
             beta' = min beta evaluation
         in if beta' \<le> alpha then ((min_eval', best_move'), s3)
            else min_loop_store child s3 r alpha beta' min_eval' best_move' ms)))"

fun search_store :: "(board \<Rightarrow> int) \<Rightarrow> store \<Rightarrow> board_ref \<Rightarrow> nat \<Rightarrow> bool \<Rightarrow> score \<Rightarrow> score \<Rightarrow>
    (score \<times> move option) \<times> store" where
  "search_store ev s r depth is_white alpha beta =
     (if depth = 0 then ((Fin (ev (load s r)), None), s)
      else if is_white then
        max_loop_store
          (\<lambda>s' new_board a c.
             (fst (fst (search_store ev s' new_board (depth - 1) (\<not> is_white) a c)),
              snd (search_store ev s' new_board (depth - 1) (\<not> is_white) a c)))
          s r alpha beta NegInf None (generate_moves (load s r) is_white)
      else
        min_loop_store
          (\<lambda>s' new_board a c.
             (fst (fst (search_store ev s' new_board (depth - 1) (\<not> is_white) a c)),
              snd (search_store ev s' new_board (depth - 1) (\<not> is_white) a c)))
          s r alpha beta PosInf None (generate_moves (load s r) is_white))"

declare search_store.simps [simp del]

definition minimax_store :: "store \<Rightarrow> board_ref \<Rightarrow> nat \<Rightarrow> bool \<Rightarrow> score \<Rightarrow> score \<Rightarrow>
    (score \<times> move option) \<times> store" where
  "minimax_store = search_store evaluate_board"

text \<open>A move between two squares of the board.\<close>

fun move_in_bounds :: "move \<Rightarrow> bool" where
  "move_in_bounds ((x1, y1), (x2, y2)) \<longleftrightarrow> is_in_bounds x1 y1 \<and> is_in_bounds x2 y2"

text \<open>
  The store \<open>s'\<close> has every row of the store \<open>s\<close>, at the same address and with the same
  content, and possibly more rows behind them.
\<close>

definition extends :: "store \<Rightarrow> store \<Rightarrow> bool" where
  "extends s s' \<longleftrightarrow> length s \<le> length s' \<and> take (length s) s' = s"

text \<open>A board of eight allocated rows, no row occurring twice in it.\<close>

definition unshared_board :: "store \<Rightarrow> board_ref \<Rightarrow> bool" where
  "unshared_board s r \<longleftrightarrow> length r = 8 \<and> distinct r \<and> (\<forall>a\<in>set r. a < length s)"

text \<open>The starting position in a store of its own, rows 0 to 7.\<close>

definition start_ref :: board_ref where
  "start_ref = [0, 1, 2, 3, 4, 5, 6, 7]"

section \<open>Properties of the tables and of the board shape\<close>

lemma directions_nonzero:
  "directions piece = Some ds \<Longrightarrow> (dx, dy) \<in> set ds \<Longrightarrow> (dx, dy) \<noteq> (0, 0)"
  by (auto simp: directions_def split: if_splits)

lemma directions_upper:
  "directions (upper piece) \<noteq> None \<Longrightarrow> directions piece \<noteq> None"
  by (auto simp: directions_def upper_def split: if_splits)

lemma wf_board_row: "wf_board b \<Longrightarrow> i < 8 \<Longrightarrow> length (b ! i) = 8"
  by (simp add: wf_board_def list_all_length)

lemma wf_board_initialize_board: "wf_board initialize_board"
  by (simp add: wf_board_def initialize_board_def)

lemma py_index_in_range: "0 \<le> i \<Longrightarrow> i < int n \<Longrightarrow> py_index n i = Some (nat i)"
  by (simp add: py_index_def)

lemma wf_board_set_square:
  assumes "wf_board b"
  shows "wf_board (set_square b x y c)"
proof -
  have len: "length b = 8" and rows: "\<And>n. n < 8 \<Longrightarrow> length (b ! n) = 8"
    using assms by (simp_all add: wf_board_def list_all_length)
  have "length (b[nat x := (b ! nat x)[nat y := c]] ! n) = 8" if "n < 8" for n
  proof (cases "n = nat x")
    case True
    with that len rows show ?thesis by simp
  next
    case False
    with that rows show ?thesis by simp
  qed
  with len show ?thesis
    by (simp add: wf_board_def set_square_def list_all_length)
qed

lemma wf_board_make_move:
  assumes "wf_board b"
  shows "wf_board (make_move b m)"
proof -
  obtain x1 y1 x2 y2 where m: "m = ((x1, y1), (x2, y2))"
    by (cases m) auto
  show ?thesis
    unfolding m using assms by (simp add: wf_board_set_square)
qed

lemma make_move_py_in_bounds:
  assumes "wf_board b" "is_in_bounds x1 y1" "is_in_bounds x2 y2"
  shows "make_move_py b ((x1, y1), (x2, y2)) = Inr (make_move b ((x1, y1), (x2, y2)))"
proof -
  have len: "length b = 8" using assms(1) by (simp add: wf_board_def)
  have r1: "length (b ! nat x1) = 8" and r2: "length (b ! nat x2) = 8"
    using assms by (auto simp: is_in_bounds_def nat_less_iff intro!: wf_board_row)
  have i1: "py_index 8 x1 = Some (nat x1)" "py_index 8 y1 = Some (nat y1)"
    and i2: "py_index 8 x2 = Some (nat x2)" "py_index 8 y2 = Some (nat y2)"
    using assms(2,3) by (simp_all add: is_in_bounds_def py_index_def)
  show ?thesis
    by (simp add: len r1 r2 i1 i2 set_square_def at_def Let_def)
qed

section \<open>Properties of the static evaluation\<close>

lemma fold_add_sum_list:
  "fold (\<lambda>x (acc::int). acc + f x) xs a = a + sum_list (map f xs)"
  by (induction xs arbitrary: a) simp_all

lemma fold_rows_sum_list:
  "fold (\<lambda>row score. fold (\<lambda>piece score. score + f piece) row score) b (a::int)
     = a + sum_list (map (\<lambda>row. sum_list (map f row)) b)"
  by (induction b arbitrary: a) (simp_all add: fold_add_sum_list)

lemma piece_value_negates:
  "piece_value_get piece = - (colour_sign piece * material_value piece)"
  by (auto simp: piece_value_get_def piece_values_def colour_sign_def material_value_def
      upper_def isupper_def islower_def)

lemma sum_list_negated_rows:
  "sum_list (map (\<lambda>row. sum_list (map piece_value_get row)) b) = - material_score b"
proof (induction b)
  case Nil
  show ?case by (simp add: material_score_def)
next
  case (Cons row b)
  have "sum_list (map piece_value_get row)
      = - sum_list (map (\<lambda>piece. colour_sign piece * material_value piece) row)"
    by (induction row) (simp_all add: piece_value_negates)
  with Cons show ?case by (simp add: material_score_def)
qed

lemma evaluate_board_negates_material: "evaluate_board b = - material_score b"
proof -
  have "evaluate_board b = sum_list (map (\<lambda>row. sum_list (map piece_value_get row)) b)"
    unfolding evaluate_board_def by (simp add: fold_rows_sum_list)
  then show ?thesis by (simp add: sum_list_negated_rows)
qed

text \<open>
  C5. The evaluator is the material sum with sign +1 for White and -1 for Black, higher
  being better for White. The code has the signs the other way round: the table of
  \<^verbatim>\<open>evaluate_board\<close> gives the lower-case (Black) letters the positive values, so the
  result is the negation of that sum on every board (lemma
  \<open>evaluate_board_negates_material\<close>). On the board holding one White pawn the code
  returns -1 where the material sum is +1, and the evaluation of \<^verbatim>\<open>main_gpu.py\<close>
  returns -9.
\<close>

theorem evaluate_board_white_pawn:
  "evaluate_board white_pawn_only = - 1 \<and> material_score white_pawn_only = 1 \<and>
   evaluate_board_gpu (board_to_tensor white_pawn_only) = - 9"
  by code_simp

section \<open>Move generation on the starting position\<close>

text \<open>
  C2. A pawn moves one step forward only onto an empty square and one step diagonally
  forward only onto a square holding an opposing piece. The code applies to the pawn the
  test it applies to every piece (empty, or occupied by the other colour): on the starting
  position the White pawn on (6, 1) gets both diagonal moves although (5, 0) and (5, 2)
  are empty.
\<close>

theorem pawn_moves_initial:
  "at initialize_board 5 0 = CHR ''.'' \<and> at initialize_board 5 2 = CHR ''.'' \<and>
   get_piece_moves initialize_board 6 1 (CHR ''P'') =
     [((6, 1), (5, 1)), ((6, 1), (5, 0)), ((6, 1), (5, 2))]"
  by code_simp

text \<open>
  C3, as the code has it. No double step exists in the move generator, so the starting
  position gives each side 12 moves that are not diagonal pawn steps: the 8 single steps
  of the pawns and 2 moves for each of the 2 knights.
\<close>

theorem generate_moves_initial_straight:
  "length (filter (\<lambda>m. \<not> pawn_diagonal initialize_board m)
             (generate_moves initialize_board True)) = 12 \<and>
   length (filter (\<lambda>m. \<not> pawn_diagonal initialize_board m)
             (generate_moves initialize_board False)) = 12"
  by code_simp

text \<open>
  C3. On the starting position each side has exactly 20 moves. The code generates 26 for
  each side: the 12 above and 14 diagonal pawn steps onto empty squares.
\<close>

theorem generate_moves_initial_count:
  "length (generate_moves initialize_board True) = 26 \<and>
   length (generate_moves initialize_board False) = 26"
  by code_simp

section \<open>Properties of \<^verbatim>\<open>make_move\<close>\<close>

text \<open>
  C7, as the code has it. \<^verbatim>\<open>make_move\<close> looks at no square before it writes: on an
  8 by 8 board and with both squares on the board it never fails, whatever the from-square
  holds; afterwards the from-square is empty and, when the two squares differ, the
  to-square holds what the from-square held (the dot included).
\<close>

theorem make_move_unchecked:
  assumes "wf_board b" "is_in_bounds x1 y1" "is_in_bounds x2 y2"
  shows "make_move_py b ((x1, y1), (x2, y2)) = Inr (make_move b ((x1, y1), (x2, y2))) \<and>
         at (make_move b ((x1, y1), (x2, y2))) x1 y1 = CHR ''.'' \<and>
         ((x1, y1) \<noteq> (x2, y2) \<longrightarrow> at (make_move b ((x1, y1), (x2, y2))) x2 y2 = at b x1 y1)"
proof -
  have len: "length b = 8" using assms(1) by (simp add: wf_board_def)
  have n1: "nat x1 < 8" "nat y1 < 8" and n2: "nat x2 < 8" "nat y2 < 8"
    using assms(2,3) by (simp_all add: is_in_bounds_def nat_less_iff)
  have r1: "length (b ! nat x1) = 8" and r2: "length (b ! nat x2) = 8"
    using assms(1) n1 n2 by (auto intro!: wf_board_row)
  have inj: "nat x1 = nat x2 \<longleftrightarrow> x1 = x2" "nat y1 = nat y2 \<longleftrightarrow> y1 = y2"
    using assms(2,3) by (auto simp: is_in_bounds_def)
  have dot: "at (make_move b ((x1, y1), (x2, y2))) x1 y1 = CHR ''.''"
    using len n1 n2 r1 r2 by (simp add: at_def set_square_def nth_list_update)
  have moved: "(x1, y1) \<noteq> (x2, y2) \<longrightarrow>
      at (make_move b ((x1, y1), (x2, y2))) x2 y2 = at b x1 y1"
    using len n1 n2 r1 r2 inj by (auto simp: at_def set_square_def nth_list_update)
  from make_move_py_in_bounds[OF assms] dot moved show ?thesis by blast
qed

theorem make_move_unchecked_witness:
  "wf_board initialize_board \<and> is_in_bounds 3 0 \<and> is_in_bounds 0 0 \<and>
   make_move_py initialize_board ((3, 0), (0, 0)) = Inr (make_move initialize_board ((3, 0), (0, 0))) \<and>
   at (make_move initialize_board ((3, 0), (0, 0))) 3 0 = CHR ''.'' \<and>
   at (make_move initialize_board ((3, 0), (0, 0))) 0 0 = at initialize_board 3 0"
proof -
  have w: "wf_board initialize_board" by (rule wf_board_initialize_board)
  have b1: "is_in_bounds 3 0" and b2: "is_in_bounds 0 0" by (simp_all add: is_in_bounds_def)
  show ?thesis using make_move_unchecked[OF w b1 b2] w b1 b2 by simp
qed

text \<open>
  C7. A move whose from-square is empty is rejected and leaves the board alone. On the
  starting position the move from the empty square (3, 0) to (0, 0) is accepted and
  erases the rook on (0, 0).
\<close>

theorem make_move_empty_from_square:
  "at initialize_board 3 0 = CHR ''.'' \<and> at initialize_board 0 0 = CHR ''r'' \<and>
   make_move_py initialize_board ((3, 0), (0, 0)) =
     Inr [''.nbqkbnr'',
          ''pppppppp'',
          ''........'',
          ''........'',
          ''........'',
          ''........'',
          ''PPPPPPPP'',
          ''RNBQKBNR'']"
  by code_simp

section \<open>Properties of the search\<close>

text \<open>
  C6. At depth 0 the search returns the static evaluation of the board and no move, for
  every board, side and window; no move is generated or applied.
\<close>

theorem minimax_depth_zero:
  "minimax b 0 is_white alpha beta = (Fin (evaluate_board b), None)"
  by (simp add: minimax_def search.simps)

lemma search_no_moves:
  "generate_moves b is_white = [] \<Longrightarrow> 0 < depth \<Longrightarrow>
   search ev b depth is_white alpha beta = (if is_white then NegInf else PosInf, None)"
  by (subst search.simps) (cases is_white; simp)

text \<open>
  C4. When the side to move has no move and the depth is positive, the search returns the
  static evaluation and no move. The code returns the initial value of its loop instead:
  minus infinity for White, plus infinity for Black (lemma \<open>search_no_moves\<close>). On the
  board holding only the Black king, White to move at depth 1 gets minus infinity where
  the static evaluation is 0.
\<close>

theorem minimax_no_moves_sentinel:
  "generate_moves black_king_only True = [] \<and>
   minimax black_king_only 1 True NegInf PosInf = (NegInf, None) \<and>
   minimax_gpu black_king_only 1 True NegInf PosInf = (NegInf, None) \<and>
   evaluate_board black_king_only = 0"
  by code_simp

subsection \<open>Pruning keeps the value at the root\<close>

lemma NegInf_least [simp]: "NegInf \<le> (x::score)"
  by simp

lemma PosInf_greatest [simp]: "(x::score) \<le> PosInf"
  by (cases x) simp_all

lemma le_NegInf_iff [simp]: "x \<le> NegInf \<longleftrightarrow> x = NegInf"
  by (cases x) simp_all

lemma PosInf_le_iff [simp]: "PosInf \<le> x \<longleftrightarrow> x = PosInf"
  by (cases x) simp_all

lemma fold_max_ge: "(a::score) \<le> fold max xs a"
proof (induction xs arbitrary: a)
  case Nil
  show ?case by simp
next
  case (Cons x xs)
  have "a \<le> max x a" by simp
  also have "\<dots> \<le> fold max xs (max x a)" by (rule Cons.IH)
  finally show ?case by simp
qed

lemma fold_min_le: "fold min xs (a::score) \<le> a"
proof (induction xs arbitrary: a)
  case Nil
  show ?case by simp
next
  case (Cons x xs)
  have "fold min xs (min x a) \<le> min x a" by (rule Cons.IH)
  also have "\<dots> \<le> a" by simp
  finally show ?case by simp
qed

lemma max_loop_ok:
  assumes "\<forall>m\<in>set ms. \<forall>a. a < beta \<longrightarrow> ab_ok a beta (child (make_move b m) a beta) (g m)"
    and "alpha < beta" and "alpha = max alpha0 me"
    and "me \<le> alpha0 \<longrightarrow> tm \<le> me" and "alpha0 < me \<longrightarrow> me = tm"
  shows "ab_ok alpha0 beta (fst (max_loop child b alpha beta me bm ms)) (fold max (map g ms) tm)"
  using assms
proof (induction ms arbitrary: alpha me bm tm)
  case Nil
  then show ?case by (auto simp: ab_ok_def max_def split: if_splits)
next
  case (Cons m ms)
  let ?v = "child (make_move b m) alpha beta"
  let ?t = "g m"
  have c: "ab_ok alpha beta ?v ?t"
    using Cons.prems(1,2) by simp
  show ?case
  proof (cases "beta \<le> max alpha ?v")
    case True
    with Cons.prems(2) have bv: "beta \<le> ?v" by (auto simp: max_def split: if_splits)
    with c have vt: "?v \<le> ?t" by (simp add: ab_ok_def)
    have "me \<le> alpha" using Cons.prems(3) by simp
    with Cons.prems(2) bv have mv: "me < ?v" by auto
    have "?t \<le> max ?t tm" by simp
    also have "\<dots> \<le> fold max (map g ms) (max ?t tm)" by (rule fold_max_ge)
    finally have "?v \<le> fold max (map g (m # ms)) tm" using vt by simp
    moreover have "fst (max_loop child b alpha beta me bm (m # ms)) = ?v"
      using True mv by (simp add: Let_def)
    moreover have "alpha0 < ?v" using Cons.prems(2,3) bv by auto
    ultimately show ?thesis using bv by (auto simp: ab_ok_def)
  next
    case False
    then have mx: "max alpha ?v < beta" by (simp add: not_le)
    then have vb: "?v < beta" by simp
    have ab: "alpha < beta" by (rule Cons.prems(2))
    let ?me = "if ?v > me then ?v else me"
    let ?bm = "if ?v > me then Some m else bm"
    have step: "max_loop child b alpha beta me bm (m # ms)
        = max_loop child b (max alpha ?v) beta ?me ?bm ms"
      using False by (simp add: Let_def)
    have a': "max alpha ?v = max alpha0 ?me"
      using Cons.prems(3) by (auto simp: max_def)
    have i1: "?me \<le> alpha0 \<longrightarrow> max ?t tm \<le> ?me"
      using Cons.prems(3,4,5) c by (auto simp: ab_ok_def max_def split: if_splits)
    have i2: "alpha0 < ?me \<longrightarrow> ?me = max ?t tm"
      using Cons.prems(3,4,5) c vb by (auto simp: ab_ok_def max_def split: if_splits)
    have "ab_ok alpha0 beta (fst (max_loop child b (max alpha ?v) beta ?me ?bm ms))
        (fold max (map g ms) (max ?t tm))"
    proof (rule Cons.IH)
      show "\<forall>m\<in>set ms. \<forall>a. a < beta \<longrightarrow> ab_ok a beta (child (make_move b m) a beta) (g m)"
        using Cons.prems(1) by simp
      show "max alpha ?v < beta" using vb ab by simp
      show "max alpha ?v = max alpha0 ?me" by (rule a')
      show "?me \<le> alpha0 \<longrightarrow> max ?t tm \<le> ?me" by (rule i1)
      show "alpha0 < ?me \<longrightarrow> ?me = max ?t tm" by (rule i2)
    qed
    then show ?thesis by (simp only: step) simp
  qed
qed


lemma min_loop_ok:
  assumes "\<forall>m\<in>set ms. \<forall>c. alpha < c \<longrightarrow> ab_ok alpha c (child (make_move b m) alpha c) (g m)"
    and "alpha < beta" and "beta = min beta0 me"
    and "beta0 \<le> me \<longrightarrow> me \<le> tm" and "me < beta0 \<longrightarrow> me = tm"
  shows "ab_ok alpha beta0 (fst (min_loop child b alpha beta me bm ms)) (fold min (map g ms) tm)"
  using assms
proof (induction ms arbitrary: beta me bm tm)
  case Nil
  then show ?case by (auto simp: ab_ok_def min_def split: if_splits)
next
  case (Cons m ms)
  let ?v = "child (make_move b m) alpha beta"
  let ?t = "g m"
  have c: "ab_ok alpha beta ?v ?t"
    using Cons.prems(1,2) by simp
  show ?case
  proof (cases "min beta ?v \<le> alpha")
    case True
    with Cons.prems(2) have va: "?v \<le> alpha" by (auto simp: min_def split: if_splits)
    with c have tv: "?t \<le> ?v" by (simp add: ab_ok_def)
    have "beta \<le> me" using Cons.prems(3) by simp
    with Cons.prems(2) va have vm: "?v < me" by auto
    have "fold min (map g ms) (min ?t tm) \<le> min ?t tm" by (rule fold_min_le)
    also have "\<dots> \<le> ?t" by simp
    finally have "fold min (map g (m # ms)) tm \<le> ?v" using tv by simp
    moreover have "fst (min_loop child b alpha beta me bm (m # ms)) = ?v"
      using True vm by (simp add: Let_def)
    moreover have "?v < beta0" using Cons.prems(2,3) va by auto
    ultimately show ?thesis using va by (auto simp: ab_ok_def)
  next
    case False
    then have mx: "alpha < min beta ?v" by (simp add: not_le)
    then have av: "alpha < ?v" by simp
    let ?me = "if ?v < me then ?v else me"
    let ?bm = "if ?v < me then Some m else bm"
    have step: "min_loop child b alpha beta me bm (m # ms)
        = min_loop child b alpha (min beta ?v) ?me ?bm ms"
      using False by (simp add: Let_def)
    have b': "min beta ?v = min beta0 ?me"
      using Cons.prems(3) by (auto simp: min_def)
    have i1: "beta0 \<le> ?me \<longrightarrow> ?me \<le> min ?t tm"
      using Cons.prems(3,4,5) c by (auto simp: ab_ok_def min_def split: if_splits)
    have i2: "?me < beta0 \<longrightarrow> ?me = min ?t tm"
      using Cons.prems(3,4,5) c av by (auto simp: ab_ok_def min_def split: if_splits)
    have "ab_ok alpha beta0 (fst (min_loop child b alpha (min beta ?v) ?me ?bm ms))
        (fold min (map g ms) (min ?t tm))"
    proof (rule Cons.IH)
      show "\<forall>m\<in>set ms. \<forall>c. alpha < c \<longrightarrow> ab_ok alpha c (child (make_move b m) alpha c) (g m)"
        using Cons.prems(1) by simp
      show "alpha < min beta ?v" by (rule mx)
      show "min beta ?v = min beta0 ?me" by (rule b')
      show "beta0 \<le> ?me \<longrightarrow> ?me \<le> min ?t tm" by (rule i1)
      show "?me < beta0 \<longrightarrow> ?me = min ?t tm" by (rule i2)
    qed
    then show ?thesis by (simp only: step) simp
  qed
qed

lemma search_ok:
  "alpha < beta \<Longrightarrow> ab_ok alpha beta (fst (search ev b d w alpha beta)) (minimax_full ev b d w)"
proof (induction d arbitrary: b w alpha beta)
  case 0
  show ?case by (simp add: search.simps minimax_full.simps ab_ok_def)
next
  case (Suc d)
  show ?case
  proof (cases w)
    case True
    have "ab_ok alpha beta
        (fst (max_loop (\<lambda>nb a c. fst (search ev nb d False a c)) b alpha beta NegInf None
               (generate_moves b True)))
        (fold max (map (\<lambda>m. minimax_full ev (make_move b m) d False) (generate_moves b True))
               NegInf)"
    proof (rule max_loop_ok)
      show "\<forall>m\<in>set (generate_moves b True). \<forall>a. a < beta \<longrightarrow>
          ab_ok a beta (fst (search ev (make_move b m) d False a beta))
            (minimax_full ev (make_move b m) d False)"
        using Suc.IH by blast
      show "alpha < beta" by (rule Suc.prems)
      show "alpha = max alpha NegInf" by (simp add: max_def)
      show "NegInf \<le> alpha \<longrightarrow> NegInf \<le> NegInf" by simp
      show "alpha < NegInf \<longrightarrow> NegInf = NegInf" by simp
    qed
    then show ?thesis
      using True by (subst search.simps, subst minimax_full.simps) simp
  next
    case False
    have "ab_ok alpha beta
        (fst (min_loop (\<lambda>nb a c. fst (search ev nb d True a c)) b alpha beta PosInf None
               (generate_moves b False)))
        (fold min (map (\<lambda>m. minimax_full ev (make_move b m) d True) (generate_moves b False))
               PosInf)"
    proof (rule min_loop_ok)
      show "\<forall>m\<in>set (generate_moves b False). \<forall>c. alpha < c \<longrightarrow>
          ab_ok alpha c (fst (search ev (make_move b m) d True alpha c))
            (minimax_full ev (make_move b m) d True)"
        using Suc.IH by blast
      show "alpha < beta" by (rule Suc.prems)
      show "beta = min beta PosInf" by (simp add: min_def)
      show "beta \<le> PosInf \<longrightarrow> PosInf \<le> PosInf" by simp
      show "PosInf < beta \<longrightarrow> PosInf = PosInf" by simp
    qed
    then show ?thesis
      using False by (subst search.simps, subst minimax_full.simps) simp
  qed
qed

lemma search_root: "fst (search ev b d w NegInf PosInf) = minimax_full ev b d w"
proof -
  have "NegInf < PosInf" by (simp add: less_score_def)
  then have k: "ab_ok NegInf PosInf (fst (search ev b d w NegInf PosInf)) (minimax_full ev b d w)"
    by (rule search_ok)
  show ?thesis
  proof (cases "fst (search ev b d w NegInf PosInf)")
    case NegInf
    with k show ?thesis by (cases "minimax_full ev b d w") (auto simp: ab_ok_def)
  next
    case (Fin x)
    with k show ?thesis by (auto simp: ab_ok_def less_score_def)
  next
    case PosInf
    with k show ?thesis by (cases "minimax_full ev b d w") (auto simp: ab_ok_def)
  qed
qed

text \<open>
  C1. For every board, every depth (in particular every depth up to 3) and either side,
  the score that the alpha-beta search returns for the full window is the score of the
  minimax over the same tree without pruning; this holds for \<^verbatim>\<open>minimax\<close> and for
  \<^verbatim>\<open>minimax_gpu\<close> with their respective evaluations.
\<close>

theorem alpha_beta_equals_minimax:
  "fst (minimax b depth is_white NegInf PosInf) = minimax_full evaluate_board b depth is_white \<and>
   fst (minimax_gpu b depth is_white NegInf PosInf)
     = minimax_full (\<lambda>b. evaluate_board_gpu (board_to_tensor b)) b depth is_white"
  by (simp add: minimax_def minimax_gpu_def search_root)

subsection \<open>Which move the search returns\<close>

lemma max_loop_ge: "me \<le> fst (max_loop child b alpha beta me bm ms)"
proof (induction ms arbitrary: alpha me bm)
  case Nil
  show ?case by simp
next
  case (Cons m ms)
  let ?v = "child (make_move b m) alpha beta"
  let ?me = "if ?v > me then ?v else me"
  have a: "me \<le> ?me" by (simp add: less_imp_le)
  have b: "?me \<le> fst (max_loop child b (max alpha ?v) beta ?me
      (if ?v > me then Some m else bm) ms)"
    by (rule Cons.IH)
  show ?case
  proof (cases "beta \<le> max alpha ?v")
    case True
    then show ?thesis using a by (simp add: Let_def)
  next
    case False
    then show ?thesis using order_trans[OF a b] by (simp add: Let_def)
  qed
qed

lemma min_loop_le: "fst (min_loop child b alpha beta me bm ms) \<le> me"
proof (induction ms arbitrary: beta me bm)
  case Nil
  show ?case by simp
next
  case (Cons m ms)
  let ?v = "child (make_move b m) alpha beta"
  let ?me = "if ?v < me then ?v else me"
  have a: "?me \<le> me" by (simp add: less_imp_le)
  have b: "fst (min_loop child b alpha (min beta ?v) ?me
      (if ?v < me then Some m else bm) ms) \<le> ?me"
    by (rule Cons.IH)
  show ?case
  proof (cases "min beta ?v \<le> alpha")
    case True
    then show ?thesis using a by (simp add: Let_def)
  next
    case False
    then show ?thesis using order_trans[OF b a] by (simp add: Let_def)
  qed
qed

lemma max_loop_first:
  "snd (max_loop child b alpha beta me bm ms) =
     (if me < fst (max_loop child b alpha beta me bm ms)
      then map_option fst (find (\<lambda>p. snd p = fst (max_loop child b alpha beta me bm ms))
                             (max_trace child b alpha beta ms))
      else bm)"
proof (induction ms arbitrary: alpha me bm)
  case Nil
  show ?case by simp
next
  case (Cons m ms)
  let ?v = "child (make_move b m) alpha beta"
  let ?me = "if ?v > me then ?v else me"
  let ?bm = "if ?v > me then Some m else bm"
  show ?case
  proof (cases "beta \<le> max alpha ?v")
    case True
    then show ?thesis by (auto simp: Let_def)
  next
    case False
    let ?r = "max_loop child b (max alpha ?v) beta ?me ?bm ms"
    have step: "max_loop child b alpha beta me bm (m # ms) = ?r"
      using False by (simp add: Let_def)
    have tr: "max_trace child b alpha beta (m # ms)
        = (m, ?v) # max_trace child b (max alpha ?v) beta ms"
      using False by (simp add: Let_def)
    have ge: "?me \<le> fst ?r" by (rule max_loop_ge)
    have ih: "snd ?r = (if ?me < fst ?r
        then map_option fst (find (\<lambda>p. snd p = fst ?r) (max_trace child b (max alpha ?v) beta ms))
        else ?bm)"
      by (rule Cons.IH)
    show ?thesis
    proof (cases "?me < fst ?r")
      case True
      then have "?v \<noteq> fst ?r" "me < fst ?r" by (auto split: if_splits)
      with True ih show ?thesis unfolding step tr by simp
    next
      case False
      with ge have eq: "fst ?r = ?me" by simp
      from False ih have "snd ?r = ?bm" by simp
      with eq show ?thesis unfolding step tr by (auto split: if_splits)
    qed
  qed
qed


lemma min_loop_first:
  "snd (min_loop child b alpha beta me bm ms) =
     (if fst (min_loop child b alpha beta me bm ms) < me
      then map_option fst (find (\<lambda>p. snd p = fst (min_loop child b alpha beta me bm ms))
                             (min_trace child b alpha beta ms))
      else bm)"
proof (induction ms arbitrary: beta me bm)
  case Nil
  show ?case by simp
next
  case (Cons m ms)
  let ?v = "child (make_move b m) alpha beta"
  let ?me = "if ?v < me then ?v else me"
  let ?bm = "if ?v < me then Some m else bm"
  show ?case
  proof (cases "min beta ?v \<le> alpha")
    case True
    then show ?thesis by (auto simp: Let_def)
  next
    case False
    let ?r = "min_loop child b alpha (min beta ?v) ?me ?bm ms"
    have step: "min_loop child b alpha beta me bm (m # ms) = ?r"
      using False by (simp add: Let_def)
    have tr: "min_trace child b alpha beta (m # ms)
        = (m, ?v) # min_trace child b alpha (min beta ?v) ms"
      using False by (simp add: Let_def)
    have le: "fst ?r \<le> ?me" by (rule min_loop_le)
    have ih: "snd ?r = (if fst ?r < ?me
        then map_option fst (find (\<lambda>p. snd p = fst ?r) (min_trace child b alpha (min beta ?v) ms))
        else ?bm)"
      by (rule Cons.IH)
    show ?thesis
    proof (cases "fst ?r < ?me")
      case True
      then have "?v \<noteq> fst ?r" "fst ?r < me" by (auto split: if_splits)
      with True ih show ?thesis unfolding step tr by simp
    next
      case False
      with le have eq: "fst ?r = ?me" by simp
      from False ih have "snd ?r = ?bm" by simp
      with eq show ?thesis unfolding step tr by (auto split: if_splits)
    qed
  qed
qed

lemma max_trace_prefix:
  "take (length (max_trace child b alpha beta ms)) ms = map fst (max_trace child b alpha beta ms)"
  by (induction ms arbitrary: alpha) (simp_all add: Let_def)

lemma min_trace_prefix:
  "take (length (min_trace child b alpha beta ms)) ms = map fst (min_trace child b alpha beta ms)"
  by (induction ms arbitrary: beta) (simp_all add: Let_def)

lemma max_trace_le:
  "p \<in> set (max_trace child b alpha beta ms) \<Longrightarrow>
   snd p \<le> fst (max_loop child b alpha beta me bm ms)"
proof (induction ms arbitrary: alpha me bm)
  case Nil
  then show ?case by simp
next
  case (Cons m ms)
  let ?v = "child (make_move b m) alpha beta"
  let ?me = "if ?v > me then ?v else me"
  let ?bm = "if ?v > me then Some m else bm"
  have v: "?v \<le> ?me" by (simp add: not_less)
  show ?case
  proof (cases "beta \<le> max alpha ?v")
    case True
    with Cons.prems v show ?thesis by (simp add: Let_def)
  next
    case False
    have ge: "?me \<le> fst (max_loop child b (max alpha ?v) beta ?me ?bm ms)"
      by (rule max_loop_ge)
    from Cons.prems False
    have "p = (m, ?v) \<or> p \<in> set (max_trace child b (max alpha ?v) beta ms)"
      by (simp add: Let_def)
    then show ?thesis
    proof
      assume "p = (m, ?v)"
      with order_trans[OF v ge] False show ?thesis by (simp add: Let_def)
    next
      assume "p \<in> set (max_trace child b (max alpha ?v) beta ms)"
      then have "snd p \<le> fst (max_loop child b (max alpha ?v) beta ?me ?bm ms)"
        by (rule Cons.IH)
      with False show ?thesis by (simp add: Let_def)
    qed
  qed
qed

lemma min_trace_ge:
  "p \<in> set (min_trace child b alpha beta ms) \<Longrightarrow>
   fst (min_loop child b alpha beta me bm ms) \<le> snd p"
proof (induction ms arbitrary: beta me bm)
  case Nil
  then show ?case by simp
next
  case (Cons m ms)
  let ?v = "child (make_move b m) alpha beta"
  let ?me = "if ?v < me then ?v else me"
  let ?bm = "if ?v < me then Some m else bm"
  have v: "?me \<le> ?v" by (simp add: not_less)
  show ?case
  proof (cases "min beta ?v \<le> alpha")
    case True
    with Cons.prems v show ?thesis by (simp add: Let_def)
  next
    case False
    have le: "fst (min_loop child b alpha (min beta ?v) ?me ?bm ms) \<le> ?me"
      by (rule min_loop_le)
    from Cons.prems False
    have "p = (m, ?v) \<or> p \<in> set (min_trace child b alpha (min beta ?v) ms)"
      by (simp add: Let_def)
    then show ?thesis
    proof
      assume "p = (m, ?v)"
      with order_trans[OF le v] False show ?thesis by (simp add: Let_def)
    next
      assume "p \<in> set (min_trace child b alpha (min beta ?v) ms)"
      then have "fst (min_loop child b alpha (min beta ?v) ?me ?bm ms) \<le> snd p"
        by (rule Cons.IH)
      with False show ?thesis by (simp add: Let_def)
    qed
  qed
qed

lemma find_snd_eq: "find (\<lambda>p. snd p = v) xs = Some p \<Longrightarrow> fst p = m \<Longrightarrow> p = (m, v)"
  by (auto simp: find_Some_iff)

lemma max_loop_result_move:
  assumes r: "max_loop child b alpha beta NegInf None ms = (v, Some m)"
  shows "find (\<lambda>p. snd p = v) (max_trace child b alpha beta ms) = Some (m, v)"
proof -
  have fv: "fst (max_loop child b alpha beta NegInf None ms) = v"
    and sv: "snd (max_loop child b alpha beta NegInf None ms) = Some m"
    by (simp_all add: r)
  have eq: "Some m = (if NegInf < v
      then map_option fst (find (\<lambda>p. snd p = v) (max_trace child b alpha beta ms)) else None)"
    using max_loop_first[of child b alpha beta NegInf None ms] unfolding fv sv .
  have "map_option fst (find (\<lambda>p. snd p = v) (max_trace child b alpha beta ms)) = Some m"
  proof (cases "NegInf < v")
    case True
    with eq show ?thesis by simp
  next
    case False
    with eq show ?thesis by simp
  qed
  then obtain p where p: "find (\<lambda>p. snd p = v) (max_trace child b alpha beta ms) = Some p"
    and pm: "fst p = m"
    unfolding map_option_eq_Some by blast
  from find_snd_eq[OF p pm] p show ?thesis by simp
qed

lemma min_loop_result_move:
  assumes r: "min_loop child b alpha beta PosInf None ms = (v, Some m)"
  shows "find (\<lambda>p. snd p = v) (min_trace child b alpha beta ms) = Some (m, v)"
proof -
  have fv: "fst (min_loop child b alpha beta PosInf None ms) = v"
    and sv: "snd (min_loop child b alpha beta PosInf None ms) = Some m"
    by (simp_all add: r)
  have eq: "Some m = (if v < PosInf
      then map_option fst (find (\<lambda>p. snd p = v) (min_trace child b alpha beta ms)) else None)"
    using min_loop_first[of child b alpha beta PosInf None ms] unfolding fv sv .
  have "map_option fst (find (\<lambda>p. snd p = v) (min_trace child b alpha beta ms)) = Some m"
  proof (cases "v < PosInf")
    case True
    with eq show ?thesis by simp
  next
    case False
    with eq show ?thesis by simp
  qed
  then obtain p where p: "find (\<lambda>p. snd p = v) (min_trace child b alpha beta ms) = Some p"
    and pm: "fst p = m"
    unfolding map_option_eq_Some by blast
  from find_snd_eq[OF p pm] p show ?thesis by simp
qed

lemma max_loop_result_best:
  assumes r: "max_loop child b alpha beta me bm ms = (v, x)"
    and p: "p \<in> set (max_trace child b alpha beta ms)"
  shows "snd p \<le> v"
proof -
  have "snd p \<le> fst (max_loop child b alpha beta me bm ms)"
    using p by (rule max_trace_le)
  then show ?thesis by (simp add: r)
qed

lemma min_loop_result_best:
  assumes r: "min_loop child b alpha beta me bm ms = (v, x)"
    and p: "p \<in> set (min_trace child b alpha beta ms)"
  shows "v \<le> snd p"
proof -
  have "fst (min_loop child b alpha beta me bm ms) \<le> snd p"
    using p by (rule min_trace_ge)
  then show ?thesis by (simp add: r)
qed

lemma search_first_best:
  assumes "search ev b depth is_white alpha beta = (v, Some m)"
  shows "find (\<lambda>p. snd p = v) (explored ev b depth is_white alpha beta) = Some (m, v) \<and>
         take (length (explored ev b depth is_white alpha beta)) (generate_moves b is_white)
           = map fst (explored ev b depth is_white alpha beta) \<and>
         (\<forall>p\<in>set (explored ev b depth is_white alpha beta).
            if is_white then snd p \<le> v else v \<le> snd p)"
proof -
  have d: "depth \<noteq> 0"
  proof
    assume "depth = 0"
    then have "search ev b depth is_white alpha beta = (Fin (ev b), None)"
      by (subst search.simps) simp
    with assms show False by simp
  qed
  show ?thesis
  proof (cases is_white)
    case True
    define child where "child = (\<lambda>new_board a c. fst (search ev new_board (depth - 1) False a c))"
    define ms where "ms = generate_moves b True"
    have "search ev b depth True alpha beta = max_loop child b alpha beta NegInf None ms"
      unfolding child_def ms_def using d by (subst search.simps) simp
    with assms True have r: "max_loop child b alpha beta NegInf None ms = (v, Some m)"
      by simp
    have e: "explored ev b depth is_white alpha beta = max_trace child b alpha beta ms"
      unfolding child_def ms_def using d True by (simp add: explored_def)
    have g: "generate_moves b is_white = ms"
      using True by (simp add: ms_def)
    have c1: "find (\<lambda>p. snd p = v) (max_trace child b alpha beta ms) = Some (m, v)"
      using r by (rule max_loop_result_move)
    have c2: "take (length (max_trace child b alpha beta ms)) ms
        = map fst (max_trace child b alpha beta ms)"
      by (rule max_trace_prefix)
    have c3: "\<forall>p\<in>set (max_trace child b alpha beta ms). snd p \<le> v"
      using max_loop_result_best[OF r] by blast
    show ?thesis
      unfolding e g using c1 c2 c3 True by simp
  next
    case False
    define child where "child = (\<lambda>new_board a c. fst (search ev new_board (depth - 1) True a c))"
    define ms where "ms = generate_moves b False"
    have "search ev b depth False alpha beta = min_loop child b alpha beta PosInf None ms"
      unfolding child_def ms_def using d by (subst search.simps) simp
    with assms False have r: "min_loop child b alpha beta PosInf None ms = (v, Some m)"
      by simp
    have e: "explored ev b depth is_white alpha beta = min_trace child b alpha beta ms"
      unfolding child_def ms_def using d False by (simp add: explored_def)
    have g: "generate_moves b is_white = ms"
      using False by (simp add: ms_def)
    have c1: "find (\<lambda>p. snd p = v) (min_trace child b alpha beta ms) = Some (m, v)"
      using r by (rule min_loop_result_move)
    have c2: "take (length (min_trace child b alpha beta ms)) ms
        = map fst (min_trace child b alpha beta ms)"
      by (rule min_trace_prefix)
    have c3: "\<forall>p\<in>set (min_trace child b alpha beta ms). v \<le> snd p"
      using min_loop_result_best[OF r] by blast
    show ?thesis
      unfolding e g using c1 c2 c3 False by simp
  qed
qed

text \<open>
  The best move changes only on a strictly better evaluation
  (\<open>>\<close> for White, \<open><\<close> for Black). So whenever the search returns a move, that move
  is the first one, in the order of the move generator, among the explored moves whose
  returned evaluation equals the returned score; the explored moves are an initial
  segment of the generated moves, and no explored move has a better evaluation than the
  returned score.
\<close>

lemma best_move_is_first_best:
  assumes "minimax b depth is_white alpha beta = (v, Some m)"
  shows "find (\<lambda>p. snd p = v) (explored evaluate_board b depth is_white alpha beta) = Some (m, v) \<and>
         take (length (explored evaluate_board b depth is_white alpha beta))
              (generate_moves b is_white)
           = map fst (explored evaluate_board b depth is_white alpha beta) \<and>
         (\<forall>p\<in>set (explored evaluate_board b depth is_white alpha beta).
            if is_white then snd p \<le> v else v \<le> snd p)"
  using assms unfolding minimax_def by (rule search_first_best)

lemma best_move_is_first_best_example:
  "minimax pawn_vs_king 1 True NegInf PosInf = (Fin (- 1), Some ((1, 0), (0, 0))) \<and>
   explored evaluate_board pawn_vs_king 1 True NegInf PosInf
     = [(((1, 0), (0, 0)), Fin (- 1)), (((1, 0), (0, 1)), Fin (- 1))] \<and>
   find (\<lambda>p. snd p = Fin (- 1)) (explored evaluate_board pawn_vs_king 1 True NegInf PosInf)
     = Some (((1, 0), (0, 0)), Fin (- 1))"
proof -
  have h: "minimax pawn_vs_king 1 True NegInf PosInf = (Fin (- 1), Some ((1, 0), (0, 0)))"
    by code_simp
  have e: "explored evaluate_board pawn_vs_king 1 True NegInf PosInf
     = [(((1, 0), (0, 0)), Fin (- 1)), (((1, 0), (0, 1)), Fin (- 1))]"
    by code_simp
  show ?thesis
    using best_move_is_first_best[OF h] h e by simp
qed

text \<open>
  C8. When two or more moves yield equal returned scores, the search is said to return
  the first of them. The code does not: with a lone White pawn on (1, 0) and the Black
  king on (0, 7), White has two moves, and at depth 3 both return minus infinity (the
  pawn reaches the last row, where it has no move, and a node without moves returns the
  initial value of its loop). Minus infinity is not strictly better than the initial
  value minus infinity of the root loop, so the best move is never set: the search
  returns no move at all, although two moves with equal scores are available, and
  \<^verbatim>\<open>play_game\<close> then stops the game as if there were no legal moves.
\<close>

theorem all_moves_at_sentinel_no_move:
  "generate_moves pawn_vs_king True = [((1, 0), (0, 0)), ((1, 0), (0, 1))] \<and>
   explored evaluate_board pawn_vs_king 3 True NegInf PosInf
     = [(((1, 0), (0, 0)), NegInf), (((1, 0), (0, 1)), NegInf)] \<and>
   minimax pawn_vs_king 3 True NegInf PosInf = (NegInf, None)"
  by code_simp

subsection \<open>Termination\<close>

lemma minimax_fuel_exhausted:
  "depth \<noteq> 0 \<Longrightarrow> minimax_fuel 0 b depth is_white alpha beta = None"
  by simp

lemma max_loop_fuel_total:
  assumes "\<And>nb a c. child_f nb a c = Some (child nb a c)"
  shows "max_loop_fuel child_f b alpha beta me bm ms = Some (max_loop child b alpha beta me bm ms)"
  by (induction ms arbitrary: alpha me bm) (simp_all add: assms Let_def)

lemma min_loop_fuel_total:
  assumes "\<And>nb a c. child_f nb a c = Some (child nb a c)"
  shows "min_loop_fuel child_f b alpha beta me bm ms = Some (min_loop child b alpha beta me bm ms)"
  by (induction ms arbitrary: beta me bm) (simp_all add: assms Let_def)

lemma minimax_fuel_search:
  "n \<le> fuel \<Longrightarrow>
   minimax_fuel fuel b (int n) is_white alpha beta = Some (search evaluate_board b n is_white alpha beta)"
proof (induction fuel arbitrary: n b is_white alpha beta)
  case 0
  then show ?case by (simp add: search.simps)
next
  case (Suc fuel)
  show ?case
  proof (cases n)
    case 0
    then show ?thesis by (simp add: search.simps)
  next
    case (Suc k)
    then have k: "k \<le> fuel" using Suc.prems by simp
    have ch: "map_option fst (minimax_fuel fuel nb (int k) w a c)
        = Some (fst (search evaluate_board nb k w a c))" for nb w a c
      by (simp add: Suc.IH[OF k])
    have dk: "int n - 1 = int k" using Suc by simp
    have nz: "int n \<noteq> 0" "n \<noteq> 0" "n - 1 = k" using Suc by simp_all
    show ?thesis
    proof (cases is_white)
      case True
      show ?thesis
        unfolding minimax_fuel.simps
        by (subst search.simps)
           (simp only: nz dk True if_True if_False not_True_eq_False ch
              max_loop_fuel_total[of _ "\<lambda>nb a c. fst (search evaluate_board nb k False a c)"])
    next
      case False
      show ?thesis
        unfolding minimax_fuel.simps
        by (subst search.simps)
           (simp only: nz dk False if_True if_False not_False_eq_True ch
              min_loop_fuel_total[of _ "\<lambda>nb a c. fst (search evaluate_board nb k True a c)"])
    qed
  qed
qed

text \<open>
  C9. For every board, every non-negative depth, every window and either side, the search
  terminates: as many nested calls as the depth suffice, and the call returns what the
  recursion on the natural-number depth computes.
\<close>

theorem minimax_terminates:
  "0 \<le> depth \<Longrightarrow> nat depth \<le> fuel \<Longrightarrow>
   minimax_fuel fuel b depth is_white alpha beta = Some (minimax b (nat depth) is_white alpha beta)"
  using minimax_fuel_search[of "nat depth" fuel b is_white alpha beta]
  by (simp add: minimax_def)

theorem minimax_terminates_witness:
  "(0::int) \<le> 3 \<and> nat 3 \<le> (3::nat) \<and>
   minimax_fuel 3 initialize_board 3 True NegInf PosInf
     = Some (minimax initialize_board (nat 3) True NegInf PosInf)"
  using minimax_terminates[of 3 3 initialize_board True NegInf PosInf] by simp

section \<open>The search and the board of its caller\<close>

text \<open>Every generated move goes from a square of the board to a square of the board.\<close>

lemma walk_in_bounds:
  "m \<in> set (walk b piece xy d nx ny) \<Longrightarrow>
   fst m = xy \<and> is_in_bounds (fst (snd m)) (snd (snd m))"
proof (induction b piece xy d nx ny rule: walk.induct)
  case (1 b piece x y dx dy nx ny)
  show ?case
  proof (cases "is_in_bounds nx ny \<and> (dx, dy) \<noteq> (0, 0)")
    case False
    with "1.prems" show ?thesis
      by (subst (asm) walk.simps) simp
  next
    case True
    let ?appended = "if at b nx ny = CHR ''.'' \<or> islower (at b nx ny) \<noteq> islower piece
                then [((x, y), (nx, ny))] else []"
    have here: "m \<in> set ?appended \<Longrightarrow> ?thesis"
      using True by (auto split: if_splits)
    show ?thesis
    proof (cases "at b nx ny \<noteq> CHR ''.'' \<or> upper piece \<in> set [CHR ''N'', CHR ''K'', CHR ''P'']")
      case stop: True
      with "1.prems" True have "m \<in> set ?appended"
        by (subst (asm) walk.simps) (auto simp: Let_def split: if_splits)
      then show ?thesis by (rule here)
    next
      case go: False
      with "1.prems" True
      have "m \<in> set ?appended \<or> m \<in> set (walk b piece (x, y) (dx, dy) (nx + dx) (ny + dy))"
        by (subst (asm) walk.simps) (auto simp: Let_def split: if_splits)
      then show ?thesis
      proof
        assume "m \<in> set ?appended"
        then show ?thesis by (rule here)
      next
        assume "m \<in> set (walk b piece (x, y) (dx, dy) (nx + dx) (ny + dy))"
        with "1.IH"[OF True refl] go show ?thesis by simp
      qed
    qed
  qed
qed

lemma get_piece_moves_None:
  assumes "directions piece = None"
  shows "get_piece_moves b x y piece = []"
  by (simp add: get_piece_moves_def assms)

lemma get_piece_moves_Some:
  assumes "directions piece = Some ds"
  shows "get_piece_moves b x y piece =
    (if directions (upper piece) \<noteq> None
     then concat (map (\<lambda>(dx, dy). walk b piece (x, y) (dx, dy) (x + dx) (y + dy)) ds) else [])"
  by (simp add: get_piece_moves_def assms)

lemma get_piece_moves_in_bounds:
  assumes "m \<in> set (get_piece_moves b x y piece)"
  shows "fst m = (x, y) \<and> is_in_bounds (fst (snd m)) (snd (snd m))"
proof (cases "directions piece")
  case None
  then have "get_piece_moves b x y piece = []" by (rule get_piece_moves_None)
  with assms show ?thesis by simp
next
  case (Some ds)
  have "m \<in> set (concat (map (\<lambda>(dx, dy). walk b piece (x, y) (dx, dy) (x + dx) (y + dy)) ds))"
  proof (cases "directions (upper piece) \<noteq> None")
    case True
    with assms show ?thesis unfolding get_piece_moves_Some[OF Some] by simp
  next
    case False
    with assms show ?thesis unfolding get_piece_moves_Some[OF Some] by simp
  qed
  then obtain d where "d \<in> set ds"
    and md: "m \<in> set ((\<lambda>(dx, dy). walk b piece (x, y) (dx, dy) (x + dx) (y + dy)) d)"
    by auto
  obtain dx dy where d: "d = (dx, dy)" by (cases d)
  from md have "m \<in> set (walk b piece (x, y) (dx, dy) (x + dx) (y + dy))"
    by (simp add: d)
  then show ?thesis by (rule walk_in_bounds)
qed

lemma generate_moves_in_bounds:
  assumes "m \<in> set (generate_moves b is_white)"
  shows "move_in_bounds m"
proof -
  from assms obtain x y where x: "x \<in> set [0..7]" and y: "y \<in> set [0..7]"
    and m: "m \<in> set (get_piece_moves b x y (at b x y))"
    by (auto simp: generate_moves_def Let_def split: if_splits)
  from get_piece_moves_in_bounds[OF m] x y show ?thesis
    by (cases m rule: move_in_bounds.cases) (auto simp: is_in_bounds_def)
qed

text \<open>
  What is allocated stays as it is: a copy allocates new rows behind the store, and a move
  applied to the copy updates rows of the copy only. By induction on the depth, a call
  returns a store that extends the one it was given.
\<close>

lemma extends_refl: "extends s s"
  by (simp add: extends_def)

lemma extends_append: "extends s (s @ e)"
  by (simp add: extends_def)

lemma extends_trans: "extends s s' \<Longrightarrow> extends s' s'' \<Longrightarrow> extends s s''"
proof -
  assume a: "extends s s'" and b: "extends s' s''"
  then have l: "length s \<le> length s'" "length s' \<le> length s''" by (simp_all add: extends_def)
  have "take (length s) s'' = take (length s) (take (length s') s'')"
    using l by (simp add: min_absorb1)
  also have "\<dots> = take (length s) s'" using b by (simp add: extends_def)
  also have "\<dots> = s" using a by (simp add: extends_def)
  finally show ?thesis using l by (simp add: extends_def)
qed

lemma extends_nth: "extends s s' \<Longrightarrow> a < length s \<Longrightarrow> s' ! a = s ! a"
  by (metis extends_def nth_take)

lemma extends_load:
  assumes "extends s s'" and "list_all (\<lambda>a. a < length s) r"
  shows "load s' r = load s r"
  using assms by (auto simp: load_def list_all_iff extends_nth)

lemma deepcopy_rows_props:
  assumes "deepcopy_rows s memo as = (r', s')"
    and "n0 \<le> length s"
    and "\<forall>p\<in>set memo. n0 \<le> snd p \<and> snd p < length s"
  shows "extends s s' \<and> length r' = length as \<and> (\<forall>a'\<in>set r'. n0 \<le> a' \<and> a' < length s')"
  using assms
proof (induction as arbitrary: s memo r' s')
  case Nil
  then show ?case by (simp add: extends_refl)
next
  case (Cons a as)
  show ?case
  proof (cases "map_of memo a")
    case (Some a')
    obtain r1 s1 where rec: "deepcopy_rows s memo as = (r1, s1)"
      by (cases "deepcopy_rows s memo as")
    with Cons.prems(1) Some have res: "r' = a' # r1" "s' = s1" by simp_all
    have ih: "extends s s1 \<and> length r1 = length as \<and> (\<forall>a'\<in>set r1. n0 \<le> a' \<and> a' < length s1)"
      using rec Cons.prems(2,3) by (rule Cons.IH)
    have "(a, a') \<in> set memo" using Some by (rule map_of_SomeD)
    with Cons.prems(3) have "n0 \<le> a'" "a' < length s" by auto
    moreover have "length s \<le> length s1" using ih by (simp add: extends_def)
    ultimately show ?thesis using ih res by auto
  next
    case None
    let ?s = "s @ [s ! a]"
    let ?memo = "(a, length s) # memo"
    obtain r1 s1 where rec: "deepcopy_rows ?s ?memo as = (r1, s1)"
      by (cases "deepcopy_rows ?s ?memo as")
    with Cons.prems(1) None have res: "r' = length s # r1" "s' = s1" by simp_all
    have ih: "extends ?s s1 \<and> length r1 = length as \<and> (\<forall>a'\<in>set r1. n0 \<le> a' \<and> a' < length s1)"
    proof (rule Cons.IH[OF rec])
      show "n0 \<le> length ?s" using Cons.prems(2) by simp
      show "\<forall>p\<in>set ?memo. n0 \<le> snd p \<and> snd p < length ?s"
        using Cons.prems(2,3) by auto
    qed
    have e: "extends s s1"
      using extends_append[of s "[s ! a]"] ih by (blast intro: extends_trans)
    have "length s < length s1" using ih by (simp add: extends_def)
    then show ?thesis using ih res e Cons.prems(2) by auto
  qed
qed

lemma deepcopy_props:
  assumes "deepcopy s r = (r', s')"
  shows "extends s s' \<and> length r' = length r \<and> (\<forall>a'\<in>set r'. length s \<le> a' \<and> a' < length s')"
  using deepcopy_rows_props[of s "[]" r r' s' "length s"] assms
  by (simp add: deepcopy_def)

lemma make_move_store_frame:
  assumes "\<forall>a\<in>set r. n0 \<le> a" and "move_in_bounds m" and "length r = 8"
  shows "length (make_move_store s r m) = length s \<and> take n0 (make_move_store s r m) = take n0 s"
proof -
  obtain x1 y1 x2 y2 where m: "m = ((x1, y1), (x2, y2))"
    by (cases m rule: move_in_bounds.cases)
  have "nat x1 < length r" "nat x2 < length r"
    using assms(2,3) by (simp_all add: m is_in_bounds_def nat_less_iff)
  then have "r ! nat x1 \<in> set r" "r ! nat x2 \<in> set r" by simp_all
  with assms(1) have "n0 \<le> r ! nat x1" "n0 \<le> r ! nat x2" by simp_all
  then show ?thesis
    by (simp add: m Let_def take_update_cancel)
qed

lemma extends_take:
  assumes "extends s s1" and "length s2 = length s1"
    and "take (length s) s2 = take (length s) s1"
  shows "extends s s2"
  using assms by (simp add: extends_def)

lemma copy_move_frame:
  assumes dc: "deepcopy s r = (new_board, s1)"
    and len: "length r = 8" and mb: "move_in_bounds m"
  shows "extends s (make_move_store s1 new_board m) \<and> length new_board = 8"
proof -
  from deepcopy_props[OF dc]
  have e: "extends s s1" and l: "length new_board = length r"
    and fresh: "\<forall>a\<in>set new_board. length s \<le> a" by auto
  from l len have l8: "length new_board = 8" by simp
  from make_move_store_frame[OF fresh mb l8, of s1]
  have "length (make_move_store s1 new_board m) = length s1"
    and "take (length s) (make_move_store s1 new_board m) = take (length s) s1" by auto
  with e have "extends s (make_move_store s1 new_board m)" by (rule extends_take)
  with l8 show ?thesis by simp
qed

lemma max_loop_store_frame:
  assumes child: "\<And>s' nb a c. length nb = 8 \<Longrightarrow> extends s' (snd (child s' nb a c))"
    and len: "length r = 8"
    and ms: "\<forall>m\<in>set ms. move_in_bounds m"
  shows "extends s (snd (max_loop_store child s r alpha beta max_eval best_move ms))"
  using ms
proof (induction ms arbitrary: s alpha max_eval best_move)
  case Nil
  show ?case by (simp add: extends_refl)
next
  case (Cons m ms)
  obtain nb s1 where dc: "deepcopy s r = (nb, s1)" by (cases "deepcopy s r")
  define s2 where "s2 = make_move_store s1 nb m"
  obtain ev s3 where ch: "child s2 nb alpha beta = (ev, s3)" by (cases "child s2 nb alpha beta")
  from Cons.prems have mb: "move_in_bounds m" and rest: "\<forall>m\<in>set ms. move_in_bounds m" by simp_all
  from copy_move_frame[OF dc len mb] have e2: "extends s s2" and l8: "length nb = 8"
    by (simp_all add: s2_def)
  from child[OF l8, of s2 alpha beta] ch have e3: "extends s2 s3" by simp
  from e2 e3 have e: "extends s s3" by (rule extends_trans)
  let ?me = "if ev > max_eval then ev else max_eval"
  let ?bm = "if ev > max_eval then Some m else best_move"
  show ?case
  proof (cases "beta \<le> max alpha ev")
    case True
    then have "snd (max_loop_store child s r alpha beta max_eval best_move (m # ms)) = s3"
      using dc ch by (simp add: s2_def[symmetric] Let_def)
    with e show ?thesis by simp
  next
    case False
    then have "snd (max_loop_store child s r alpha beta max_eval best_move (m # ms))
        = snd (max_loop_store child s3 r (max alpha ev) beta ?me ?bm ms)"
      using dc ch by (simp add: s2_def[symmetric] Let_def)
    moreover have "extends s3 (snd (max_loop_store child s3 r (max alpha ev) beta ?me ?bm ms))"
      using rest by (rule Cons.IH)
    ultimately show ?thesis using e by (metis extends_trans)
  qed
qed

lemma min_loop_store_frame:
  assumes child: "\<And>s' nb a c. length nb = 8 \<Longrightarrow> extends s' (snd (child s' nb a c))"
    and len: "length r = 8"
    and ms: "\<forall>m\<in>set ms. move_in_bounds m"
  shows "extends s (snd (min_loop_store child s r alpha beta min_eval best_move ms))"
  using ms
proof (induction ms arbitrary: s beta min_eval best_move)
  case Nil
  show ?case by (simp add: extends_refl)
next
  case (Cons m ms)
  obtain nb s1 where dc: "deepcopy s r = (nb, s1)" by (cases "deepcopy s r")
  define s2 where "s2 = make_move_store s1 nb m"
  obtain ev s3 where ch: "child s2 nb alpha beta = (ev, s3)" by (cases "child s2 nb alpha beta")
  from Cons.prems have mb: "move_in_bounds m" and rest: "\<forall>m\<in>set ms. move_in_bounds m" by simp_all
  from copy_move_frame[OF dc len mb] have e2: "extends s s2" and l8: "length nb = 8"
    by (simp_all add: s2_def)
  from child[OF l8, of s2 alpha beta] ch have e3: "extends s2 s3" by simp
  from e2 e3 have e: "extends s s3" by (rule extends_trans)
  let ?me = "if ev < min_eval then ev else min_eval"
  let ?bm = "if ev < min_eval then Some m else best_move"
  show ?case
  proof (cases "min beta ev \<le> alpha")
    case True
    then have "snd (min_loop_store child s r alpha beta min_eval best_move (m # ms)) = s3"
      using dc ch by (simp add: s2_def[symmetric] Let_def)
    with e show ?thesis by simp
  next
    case False
    then have "snd (min_loop_store child s r alpha beta min_eval best_move (m # ms))
        = snd (min_loop_store child s3 r alpha (min beta ev) ?me ?bm ms)"
      using dc ch by (simp add: s2_def[symmetric] Let_def)
    moreover have "extends s3 (snd (min_loop_store child s3 r alpha (min beta ev) ?me ?bm ms))"
      using rest by (rule Cons.IH)
    ultimately show ?thesis using e by (metis extends_trans)
  qed
qed

lemma search_store_frame:
  "length r = 8 \<Longrightarrow> extends s (snd (search_store ev s r depth is_white alpha beta))"
proof (induction depth arbitrary: s r is_white alpha beta)
  case 0
  show ?case by (subst search_store.simps) (simp add: extends_refl)
next
  case (Suc d)
  have mv: "\<forall>m\<in>set (generate_moves (load s r) is_white). move_in_bounds m"
    by (simp add: generate_moves_in_bounds)
  show ?case
  proof (cases is_white)
    case True
    have "extends s (snd (max_loop_store
          (\<lambda>s' new_board a c.
             (fst (fst (search_store ev s' new_board d (\<not> is_white) a c)),
              snd (search_store ev s' new_board d (\<not> is_white) a c)))
          s r alpha beta NegInf None (generate_moves (load s r) is_white)))"
      by (rule max_loop_store_frame) (simp_all add: Suc.IH Suc.prems mv)
    then show ?thesis using True by (subst search_store.simps) simp
  next
    case False
    have "extends s (snd (min_loop_store
          (\<lambda>s' new_board a c.
             (fst (fst (search_store ev s' new_board d (\<not> is_white) a c)),
              snd (search_store ev s' new_board d (\<not> is_white) a c)))
          s r alpha beta PosInf None (generate_moves (load s r) is_white)))"
      by (rule min_loop_store_frame) (simp_all add: Suc.IH Suc.prems mv)
    then show ?thesis using False by (subst search_store.simps) simp
  qed
qed

text \<open>
  C10. The search never mutates the board it is given. For every store, every board of
  eight rows of eight squares in it, every depth, side and window, the store that
  \<^verbatim>\<open>minimax\<close> returns holds every row that was allocated before the call, unchanged
  (new rows have been allocated behind them: the copies); so the caller's board reads
  after the call as it did before, through the caller's reference and through any other
  reference to its rows. Each move is applied to a deep copy, whose rows are new.
\<close>

theorem minimax_leaves_board_unchanged:
  assumes "valid_board s r"
  shows "extends s (snd (minimax_store s r depth is_white alpha beta)) \<and>
         load (snd (minimax_store s r depth is_white alpha beta)) r = load s r"
proof -
  from assms have l: "length r = 8" and v: "list_all (\<lambda>a. a < length s) r"
    by (simp_all add: valid_board_def list_all_iff)
  have e: "extends s (snd (minimax_store s r depth is_white alpha beta))"
    unfolding minimax_store_def using l by (rule search_store_frame)
  from e v have "load (snd (minimax_store s r depth is_white alpha beta)) r = load s r"
    by (rule extends_load)
  with e show ?thesis by simp
qed

theorem minimax_leaves_board_unchanged_witness:
  "valid_board initialize_board start_ref \<and>
   load initialize_board start_ref = initialize_board \<and>
   load (snd (minimax_store initialize_board start_ref 3 True NegInf PosInf)) start_ref
     = initialize_board"
proof -
  have v: "valid_board initialize_board start_ref" by code_simp
  have l: "load initialize_board start_ref = initialize_board" by code_simp
  show ?thesis
    using minimax_leaves_board_unchanged[OF v, of 3 True NegInf PosInf] v l by simp
qed

subsection \<open>The search on a store and the search on values\<close>

text \<open>
  On a board whose eight rows are distinct objects, a deep copy consists of eight new
  rows with the contents of the old ones, and a move applied to it gives the board that
  \<open>make_move\<close> gives on values. So the search with the store returns the score and the
  move that \<open>search\<close> returns on the board as a value: the results about \<open>minimax\<close>
  above are results about the program with its updates in place.
\<close>

lemma deepcopy_rows_distinct:
  assumes "deepcopy_rows s memo as = (r', s')"
    and "distinct as"
    and "\<forall>a\<in>set as. a < length s \<and> map_of memo a = None"
  shows "r' = [length s ..< length s + length as] \<and> s' = s @ map (\<lambda>a. s ! a) as"
  using assms
proof (induction as arbitrary: s memo r' s')
  case Nil
  then show ?case by simp
next
  case (Cons a as)
  let ?s = "s @ [s ! a]"
  let ?memo = "(a, length s) # memo"
  from Cons.prems(3) have none: "map_of memo a = None" by simp
  obtain r1 s1 where rec: "deepcopy_rows ?s ?memo as = (r1, s1)"
    by (cases "deepcopy_rows ?s ?memo as")
  with Cons.prems(1) none have res: "r' = length s # r1" "s' = s1" by simp_all
  have d: "distinct as" and na: "a \<notin> set as" using Cons.prems(2) by simp_all
  have inv: "\<forall>b\<in>set as. b < length ?s \<and> map_of ?memo b = None"
    using Cons.prems(3) na by auto
  from Cons.IH[OF rec d inv]
  have r1: "r1 = [length ?s ..< length ?s + length as]"
    and s1: "s1 = ?s @ map (\<lambda>b. ?s ! b) as" by simp_all
  have same: "map (\<lambda>b. ?s ! b) as = map (\<lambda>b. s ! b) as"
    using Cons.prems(3) by (simp add: nth_append)
  have "[length s ..< length s + length (a # as)]
      = length s # [Suc (length s) ..< length s + length (a # as)]"
    by (rule upt_conv_Cons) simp
  then have "r' = [length s ..< length s + length (a # as)]"
    using res(1) r1 by (simp del: upt_Suc)
  moreover have "s' = s @ map (\<lambda>b. s ! b) (a # as)"
    using res(2) s1 same by simp
  ultimately show ?case by simp
qed

lemma deepcopy_unshared:
  assumes dc: "deepcopy s r = (nb, s1)" and g: "unshared_board s r"
  shows "unshared_board s1 nb \<and> load s1 nb = load s r \<and> extends s s1 \<and> (\<forall>a\<in>set nb. length s \<le> a)"
proof -
  from g have l: "length r = 8" and d: "distinct r" and v: "\<forall>a\<in>set r. a < length s"
    by (simp_all add: unshared_board_def)
  from deepcopy_rows_distinct[of s "[]" r nb s1] dc d v
  have nb: "nb = [length s ..< length s + length r]" and s1: "s1 = s @ map (\<lambda>a. s ! a) r"
    by (simp_all add: deepcopy_def)
  have "unshared_board s1 nb" using nb s1 l by (simp add: unshared_board_def)
  moreover have "load s1 nb = load s r"
    unfolding load_def nb s1 by (rule nth_equalityI) (simp_all add: nth_append)
  moreover have "extends s s1" unfolding s1 by (rule extends_append)
  moreover have "\<forall>a\<in>set nb. length s \<le> a" using nb by simp
  ultimately show ?thesis by simp
qed

lemma load_update:
  assumes "distinct r" and "i < length r" and "r ! i < length s"
  shows "load (s[r ! i := v]) r = (load s r)[i := v]"
  unfolding load_def
proof (rule nth_equalityI)
  show "length (map ((!) (s[r ! i := v])) r) = length ((map ((!) s) r)[i := v])"
    by simp
next
  fix j assume "j < length (map ((!) (s[r ! i := v])) r)"
  then have j: "j < length r" by simp
  have eq: "r ! i = r ! j \<longleftrightarrow> i = j"
    using assms(1,2) j by (simp add: nth_eq_iff_index_eq)
  show "map ((!) (s[r ! i := v])) r ! j = (map ((!) s) r)[i := v] ! j"
    using j assms(2,3) eq by (auto simp: nth_list_update)
qed

lemma make_move_store_load:
  assumes g: "unshared_board s r" and mb: "move_in_bounds m"
  shows "load (make_move_store s r m) r = make_move (load s r) m \<and>
         length (make_move_store s r m) = length s"
proof -
  obtain x1 y1 x2 y2 where m: "m = ((x1, y1), (x2, y2))"
    by (cases m rule: move_in_bounds.cases)
  from g have l: "length r = 8" and d: "distinct r" and v: "\<forall>a\<in>set r. a < length s"
    by (simp_all add: unshared_board_def)
  have i: "nat x1 < length r" "nat x2 < length r"
    using mb l by (simp_all add: m is_in_bounds_def nat_less_iff)
  then have a: "r ! nat x1 < length s" "r ! nat x2 < length s" using v by simp_all
  define s1 where "s1 = s[r ! nat x2 := (s ! (r ! nat x2))[nat y2 := s ! (r ! nat x1) ! nat y1]]"
  have l1: "load s1 r = set_square (load s r) x2 y2 (at (load s r) x1 y1)"
    unfolding s1_def using load_update[OF d i(2) a(2)] a i
    by (simp add: set_square_def at_def load_def)
  have a1: "r ! nat x1 < length s1" using a by (simp add: s1_def)
  have "load (s1[r ! nat x1 := (s1 ! (r ! nat x1))[nat y1 := CHR ''.'']]) r
      = set_square (load s1 r) x1 y1 (CHR ''.'')"
    using load_update[OF d i(1) a1] a1 i
    by (simp add: set_square_def load_def)
  with l1 have "load (make_move_store s r m) r = make_move (load s r) m"
    by (simp add: m s1_def[symmetric] Let_def)
  moreover have "length (make_move_store s r m) = length s"
    by (simp add: m Let_def)
  ultimately show ?thesis by simp
qed

lemma unshared_board_extends:
  assumes "unshared_board s r" and "extends s s'"
  shows "unshared_board s' r \<and> load s' r = load s r"
proof -
  from assms(1) have v: "\<forall>a\<in>set r. a < length s" by (simp add: unshared_board_def)
  from assms(2) have "length s \<le> length s'" by (simp add: extends_def)
  with assms(1) have "unshared_board s' r" by (auto simp: unshared_board_def)
  moreover have "load s' r = load s r"
    using assms(2) v by (intro extends_load) (simp_all add: list_all_iff)
  ultimately show ?thesis by simp
qed

lemma copy_move_unshared:
  assumes dc: "deepcopy s r = (nb, s1)" and g: "unshared_board s r" and mb: "move_in_bounds m"
  shows "unshared_board (make_move_store s1 nb m) nb \<and>
         load (make_move_store s1 nb m) nb = make_move (load s r) m"
proof -
  from deepcopy_unshared[OF dc g] have g1: "unshared_board s1 nb" and l1: "load s1 nb = load s r" by simp_all
  from make_move_store_load[OF g1 mb]
  have l2: "load (make_move_store s1 nb m) nb = make_move (load s1 nb) m"
    and len: "length (make_move_store s1 nb m) = length s1" by simp_all
  from g1 len have "unshared_board (make_move_store s1 nb m) nb" by (simp add: unshared_board_def)
  with l2 l1 show ?thesis by simp
qed

lemma max_loop_store_agrees:
  assumes child: "\<And>s' nb a c. unshared_board s' nb \<Longrightarrow>
        fst (cs s' nb a c) = cp (load s' nb) a c \<and> extends s' (snd (cs s' nb a c))"
    and g: "unshared_board s r"
    and ms: "\<forall>m\<in>set ms. move_in_bounds m"
  shows "fst (max_loop_store cs s r alpha beta max_eval best_move ms)
       = max_loop cp (load s r) alpha beta max_eval best_move ms"
  using g ms
proof (induction ms arbitrary: s alpha max_eval best_move)
  case Nil
  show ?case by simp
next
  case (Cons m ms)
  obtain nb s1 where dc: "deepcopy s r = (nb, s1)" by (cases "deepcopy s r")
  define s2 where "s2 = make_move_store s1 nb m"
  obtain ev s3 where ch: "cs s2 nb alpha beta = (ev, s3)" by (cases "cs s2 nb alpha beta")
  from Cons.prems have mb: "move_in_bounds m" and rest: "\<forall>m\<in>set ms. move_in_bounds m"
    and g: "unshared_board s r" by simp_all
  from g have l: "length r = 8" by (simp add: unshared_board_def)
  from copy_move_unshared[OF dc g mb]
  have g2: "unshared_board s2 nb" and l2: "load s2 nb = make_move (load s r) m" by (simp_all add: s2_def)
  from child[OF g2, of alpha beta] ch l2
  have ev: "ev = cp (make_move (load s r) m) alpha beta" and e3: "extends s2 s3" by simp_all
  from copy_move_frame[OF dc l mb] have "extends s s2" by (simp add: s2_def)
  with e3 have "extends s s3" by (metis extends_trans)
  with g have g3: "unshared_board s3 r" and l3: "load s3 r = load s r" using unshared_board_extends by blast+
  let ?me = "if ev > max_eval then ev else max_eval"
  let ?bm = "if ev > max_eval then Some m else best_move"
  show ?case
  proof (cases "beta \<le> max alpha ev")
    case True
    then have "fst (max_loop_store cs s r alpha beta max_eval best_move (m # ms)) = (?me, ?bm)"
      using dc ch by (simp add: s2_def[symmetric] Let_def)
    moreover have "max_loop cp (load s r) alpha beta max_eval best_move (m # ms) = (?me, ?bm)"
      using True by (simp add: Let_def ev[symmetric])
    ultimately show ?thesis by simp
  next
    case False
    then have "fst (max_loop_store cs s r alpha beta max_eval best_move (m # ms))
        = fst (max_loop_store cs s3 r (max alpha ev) beta ?me ?bm ms)"
      using dc ch by (simp add: s2_def[symmetric] Let_def)
    also have "\<dots> = max_loop cp (load s3 r) (max alpha ev) beta ?me ?bm ms"
      using g3 rest by (rule Cons.IH)
    also have "\<dots> = max_loop cp (load s r) alpha beta max_eval best_move (m # ms)"
      using False by (simp add: Let_def ev[symmetric] l3)
    finally show ?thesis .
  qed
qed

lemma min_loop_store_agrees:
  assumes child: "\<And>s' nb a c. unshared_board s' nb \<Longrightarrow>
        fst (cs s' nb a c) = cp (load s' nb) a c \<and> extends s' (snd (cs s' nb a c))"
    and g: "unshared_board s r"
    and ms: "\<forall>m\<in>set ms. move_in_bounds m"
  shows "fst (min_loop_store cs s r alpha beta min_eval best_move ms)
       = min_loop cp (load s r) alpha beta min_eval best_move ms"
  using g ms
proof (induction ms arbitrary: s beta min_eval best_move)
  case Nil
  show ?case by simp
next
  case (Cons m ms)
  obtain nb s1 where dc: "deepcopy s r = (nb, s1)" by (cases "deepcopy s r")
  define s2 where "s2 = make_move_store s1 nb m"
  obtain ev s3 where ch: "cs s2 nb alpha beta = (ev, s3)" by (cases "cs s2 nb alpha beta")
  from Cons.prems have mb: "move_in_bounds m" and rest: "\<forall>m\<in>set ms. move_in_bounds m"
    and g: "unshared_board s r" by simp_all
  from g have l: "length r = 8" by (simp add: unshared_board_def)
  from copy_move_unshared[OF dc g mb]
  have g2: "unshared_board s2 nb" and l2: "load s2 nb = make_move (load s r) m" by (simp_all add: s2_def)
  from child[OF g2, of alpha beta] ch l2
  have ev: "ev = cp (make_move (load s r) m) alpha beta" and e3: "extends s2 s3" by simp_all
  from copy_move_frame[OF dc l mb] have "extends s s2" by (simp add: s2_def)
  with e3 have "extends s s3" by (metis extends_trans)
  with g have g3: "unshared_board s3 r" and l3: "load s3 r = load s r" using unshared_board_extends by blast+
  let ?me = "if ev < min_eval then ev else min_eval"
  let ?bm = "if ev < min_eval then Some m else best_move"
  show ?case
  proof (cases "min beta ev \<le> alpha")
    case True
    then have "fst (min_loop_store cs s r alpha beta min_eval best_move (m # ms)) = (?me, ?bm)"
      using dc ch by (simp add: s2_def[symmetric] Let_def)
    moreover have "min_loop cp (load s r) alpha beta min_eval best_move (m # ms) = (?me, ?bm)"
      using True by (simp add: Let_def ev[symmetric])
    ultimately show ?thesis by simp
  next
    case False
    then have "fst (min_loop_store cs s r alpha beta min_eval best_move (m # ms))
        = fst (min_loop_store cs s3 r alpha (min beta ev) ?me ?bm ms)"
      using dc ch by (simp add: s2_def[symmetric] Let_def)
    also have "\<dots> = min_loop cp (load s3 r) alpha (min beta ev) ?me ?bm ms"
      using g3 rest by (rule Cons.IH)
    also have "\<dots> = min_loop cp (load s r) alpha beta min_eval best_move (m # ms)"
      using False by (simp add: Let_def ev[symmetric] l3)
    finally show ?thesis .
  qed
qed

lemma search_store_agrees:
  "unshared_board s r \<Longrightarrow> fst (search_store ev s r depth is_white alpha beta)
     = search ev (load s r) depth is_white alpha beta"
proof (induction depth arbitrary: s r is_white alpha beta)
  case 0
  show ?case by (subst search_store.simps, subst search.simps) simp
next
  case (Suc d)
  have mv: "\<forall>m\<in>set (generate_moves (load s r) is_white). move_in_bounds m"
    by (simp add: generate_moves_in_bounds)
  let ?cs = "\<lambda>s' new_board a c.
             (fst (fst (search_store ev s' new_board d (\<not> is_white) a c)),
              snd (search_store ev s' new_board d (\<not> is_white) a c))"
  let ?cp = "\<lambda>new_board a c. fst (search ev new_board d (\<not> is_white) a c)"
  have child: "\<And>s' nb a c. unshared_board s' nb \<Longrightarrow>
        fst (?cs s' nb a c) = ?cp (load s' nb) a c \<and> extends s' (snd (?cs s' nb a c))"
    using Suc.IH search_store_frame by (simp add: unshared_board_def)
  show ?case
  proof (cases is_white)
    case True
    have "fst (max_loop_store ?cs s r alpha beta NegInf None (generate_moves (load s r) is_white))
        = max_loop ?cp (load s r) alpha beta NegInf None (generate_moves (load s r) is_white)"
      using child Suc.prems mv by (rule max_loop_store_agrees)
    then show ?thesis using True by (subst search_store.simps, subst search.simps) simp
  next
    case False
    have "fst (min_loop_store ?cs s r alpha beta PosInf None (generate_moves (load s r) is_white))
        = min_loop ?cp (load s r) alpha beta PosInf None (generate_moves (load s r) is_white)"
      using child Suc.prems mv by (rule min_loop_store_agrees)
    then show ?thesis using False by (subst search_store.simps, subst search.simps) simp
  qed
qed

lemma minimax_store_agrees:
  assumes "valid_board s r" and "distinct r"
  shows "fst (minimax_store s r depth is_white alpha beta)
       = minimax (load s r) depth is_white alpha beta"
proof -
  from assms have "unshared_board s r" by (simp add: unshared_board_def valid_board_def list_all_iff)
  then show ?thesis unfolding minimax_store_def minimax_def by (rule search_store_agrees)
qed

end
